theory Spec2Isabelle
  imports Main "HOL-Library.Word"
begin

unbundle bit_operations_syntax

section \<open>Primitive types and constants (PrimitiveTypes.h, Common.h)\<close>

type_synonym u32 = "32 word"
type_synonym u64 = "64 word"
type_synonym EntityID = "64 word"

text \<open>
  Every place where the C++ has no defined result is a value of \<open>error\<close>:
  a failed \<open>assert\<close>, an index outside a \<open>std::vector\<close> or a null page
  (undefined behaviour), \<open>std::out_of_range\<close> thrown by \<open>std::bitset\<close>,
  and the overflow of the signed entity counter.
\<close>

datatype error = AssertionFailed | OutOfBounds | OutOfRange | SignedOverflow

definition MAX_COMPONENTS :: nat where
  "MAX_COMPONENTS = 32"

definition MAX_ENTITIES :: nat where
  "MAX_ENTITIES = 1000000"

definition DEFAULT_CAPACITY :: nat where
  "DEFAULT_CAPACITY = 1000"

definition PAGE_SIZE :: nat where
  "PAGE_SIZE = 4096"

definition ENTITY_INDEX_MASK :: u64 where
  "ENTITY_INDEX_MASK = 0xFFFFFFFF"

definition ENTITY_VERSION_MASK :: u64 where
  "ENTITY_VERSION_MASK = 0xFFFFFFFF00000000"

definition ENTITY_VERSION_SHIFT :: nat where
  "ENTITY_VERSION_SHIFT = 32"

definition GetEntityIndex :: "EntityID \<Rightarrow> u32" where
  "GetEntityIndex eid = ucast (eid AND ENTITY_INDEX_MASK)"

definition GetEntityVersion :: "EntityID \<Rightarrow> u32" where
  "GetEntityVersion eid = ucast (drop_bit ENTITY_VERSION_SHIFT (eid AND ENTITY_VERSION_MASK))"

definition CreateEntityId :: "u32 \<Rightarrow> u32 \<Rightarrow> EntityID" where
  "CreateEntityId index version = push_bit ENTITY_VERSION_SHIFT (ucast version) OR ucast index"

text \<open>FNV-1a over a C string: the loop stops at the first NUL character.\<close>

fun HashString_loop :: "u32 \<Rightarrow> string \<Rightarrow> u32" where
  "HashString_loop hash [] = hash"
| "HashString_loop hash (c # str) =
     (if of_char c = (0::nat) then hash
      else HashString_loop ((hash XOR of_nat (of_char c)) * 16777619) str)"

definition HashString :: "string \<Rightarrow> u32" where
  "HashString str = HashString_loop 2166136261 str"

section \<open>Component pool (Pool.h)\<close>

text \<open>
  \<open>m_sparse\<close> is a vector of pages; a page is a null pointer (\<open>None\<close>) or an
  array of \<open>PAGE_SIZE\<close> ints holding a dense position or \<open>-1\<close>.
\<close>

record 'a Pool =
  m_data :: "'a list"
  m_packed :: "EntityID list"
  m_sparse :: "int list option list"

text \<open>The cast \<open>(int)m_data.size()\<close>: the size truncated to a signed 32-bit int.\<close>

definition int_cast :: "nat \<Rightarrow> int" where
  "int_cast n = sint (word_of_nat n :: 32 word)"

text \<open>The constructor \<open>Pool()\<close>; \<open>reserve\<close> changes no contents.\<close>

definition Pool_init :: "'a Pool" where
  "Pool_init = \<lparr>m_data = [], m_packed = [],
                 m_sparse = replicate (MAX_ENTITIES div PAGE_SIZE + 1) None\<rparr>"

text \<open>Reading \<open>m_sparse[page][offset]\<close>; \<open>None\<close> when the page is outside the
  vector or null.\<close>

definition sparse_read :: "int list option list \<Rightarrow> nat \<Rightarrow> nat \<Rightarrow> int option" where
  "sparse_read sp page offset =
     (if page \<ge> length sp then None
      else case sp ! page of None \<Rightarrow> None | Some pg \<Rightarrow> Some (pg ! offset))"

text \<open>The assignment \<open>m_sparse[page][offset] = v\<close> on an allocated page.\<close>

definition sparse_write :: "int list option list \<Rightarrow> nat \<Rightarrow> nat \<Rightarrow> int \<Rightarrow> int list option list" where
  "sparse_write sp page offset v =
     sp[page := map_option (\<lambda>pg. pg[offset := v]) (sp ! page)]"

definition Pool_Has :: "'a Pool \<Rightarrow> EntityID \<Rightarrow> bool" where
  "Pool_Has p eid =
     (let index = unat (GetEntityIndex eid);
          page = index div PAGE_SIZE;
          offset = index mod PAGE_SIZE
      in case sparse_read (m_sparse p) page offset of
           None \<Rightarrow> False
         | Some k \<Rightarrow> k \<noteq> -1)"

definition Pool_Add :: "'a Pool \<Rightarrow> EntityID \<Rightarrow> 'a \<Rightarrow> error + 'a Pool" where
  "Pool_Add p eid object =
     (let index = unat (GetEntityIndex eid);
          page = index div PAGE_SIZE;
          offset = index mod PAGE_SIZE
      in if page \<ge> length (m_sparse p) \<and> \<not> index < MAX_ENTITIES then Inl AssertionFailed
         else
           let sparse1 = (if page \<ge> length (m_sparse p)
                          then m_sparse p @ replicate (page + 1 - length (m_sparse p)) None
                          else m_sparse p);
               sparse2 = (case sparse1 ! page of
                            None \<Rightarrow> sparse1[page := Some (replicate PAGE_SIZE (-1))]
                          | Some pg \<Rightarrow> sparse1);
               data' = m_data p @ [object];
               packed' = m_packed p @ [eid]
           in Inr \<lparr>m_data = data', m_packed = packed',
                   m_sparse = sparse_write sparse2 page offset (int_cast (length data') - 1)\<rparr>)"

definition Pool_Remove :: "'a Pool \<Rightarrow> EntityID \<Rightarrow> error + 'a Pool" where
  "Pool_Remove p eid =
     (if \<not> Pool_Has p eid then Inr p
      else
        let index = unat (GetEntityIndex eid);
            page = index div PAGE_SIZE;
            offset = index mod PAGE_SIZE
        in case sparse_read (m_sparse p) page offset of
             None \<Rightarrow> Inl OutOfBounds
           | Some indexToRemove \<Rightarrow>
              (let indexLast = int_cast (length (m_data p)) - 1;
                   swapped =
                     (if indexToRemove \<noteq> indexLast then
                        if indexLast < 0 \<or> nat indexLast \<ge> length (m_packed p)
                           \<or> nat indexLast \<ge> length (m_data p)
                           \<or> indexToRemove < 0 \<or> nat indexToRemove \<ge> length (m_data p)
                           \<or> nat indexToRemove \<ge> length (m_packed p)
                        then Inl OutOfBounds
                        else
                          let lastEntityId = m_packed p ! nat indexLast;
                              lastEntityIndex = unat (GetEntityIndex lastEntityId)
                          in (case sparse_read (m_sparse p) (lastEntityIndex div PAGE_SIZE)
                                     (lastEntityIndex mod PAGE_SIZE) of
                                None \<Rightarrow> Inl OutOfBounds
                              | Some _ \<Rightarrow>
                                  Inr \<lparr>m_data = (m_data p)[nat indexToRemove := m_data p ! nat indexLast],
                                       m_packed = (m_packed p)[nat indexToRemove := lastEntityId],
                                       m_sparse = sparse_write (m_sparse p) (lastEntityIndex div PAGE_SIZE)
                                                    (lastEntityIndex mod PAGE_SIZE) indexToRemove\<rparr>)
                      else Inr p)
               in (case swapped of
                     Inl e \<Rightarrow> Inl e
                   | Inr p1 \<Rightarrow>
                       if m_data p1 = [] \<or> m_packed p1 = [] then Inl OutOfBounds
                       else Inr \<lparr>m_data = butlast (m_data p1), m_packed = butlast (m_packed p1),
                                m_sparse = sparse_write (m_sparse p1) page offset (-1)\<rparr>)))"

definition Pool_RemoveEntityFromPool :: "'a Pool \<Rightarrow> EntityID \<Rightarrow> error + 'a Pool" where
  "Pool_RemoveEntityFromPool p eid = Pool_Remove p eid"

definition Pool_Get :: "'a Pool \<Rightarrow> EntityID \<Rightarrow> error + 'a" where
  "Pool_Get p eid =
     (let index = unat (GetEntityIndex eid);
          page = index div PAGE_SIZE;
          offset = index mod PAGE_SIZE
      in case sparse_read (m_sparse p) page offset of
           None \<Rightarrow> Inl OutOfBounds
         | Some k \<Rightarrow>
             (if k < 0 \<or> nat k \<ge> length (m_data p) then Inl OutOfBounds
              else Inr (m_data p ! nat k)))"

definition Pool_Set :: "'a Pool \<Rightarrow> EntityID \<Rightarrow> 'a \<Rightarrow> error + 'a Pool" where
  "Pool_Set p eid object =
     (if Pool_Has p eid then
        (let index = unat (GetEntityIndex eid)
         in case sparse_read (m_sparse p) (index div PAGE_SIZE) (index mod PAGE_SIZE) of
              None \<Rightarrow> Inl OutOfBounds
            | Some k \<Rightarrow>
                if k < 0 \<or> nat k \<ge> length (m_data p) then Inl OutOfBounds
                else Inr (p\<lparr>m_data := (m_data p)[nat k := object]\<rparr>))
      else Pool_Add p eid object)"


section \<open>Entity handle (Entity.h)\<close>

text \<open>An entity holds its id and a pointer to the owning registry; the model has
  one registry, so the pointer is null or that registry.\<close>

datatype registry_ptr = nullptr | this_registry

record Entity =
  m_id :: EntityID
  registry :: registry_ptr

definition GetId :: "Entity \<Rightarrow> EntityID" where
  "GetId e = m_id e"

text \<open>\<open>operator==\<close> and \<open>operator<\<close> of Entity compare the ids only.\<close>

definition Entity_eq :: "Entity \<Rightarrow> Entity \<Rightarrow> bool" where
  "Entity_eq a b = (GetId a = GetId b)"

definition Entity_less :: "Entity \<Rightarrow> Entity \<Rightarrow> bool" where
  "Entity_less a b = (GetId a < GetId b)"

text \<open>\<open>std::set<Entity>::insert\<close>: the set is kept in the order of \<open>operator<\<close>, and
  an element equivalent to one already present is not inserted.\<close>

fun set_insert :: "Entity \<Rightarrow> Entity list \<Rightarrow> Entity list" where
  "set_insert e [] = [e]"
| "set_insert e (x # xs) =
     (if Entity_less e x then e # x # xs
      else if Entity_less x e then x # set_insert e xs
      else x # xs)"

section \<open>System base (System.h)\<close>

type_synonym Signature = "32 word"

record System =
  m_componentSignature :: Signature
  m_entities :: "Entity list"

text \<open>Modelled from the spec: System.cpp is not among the sources; the spec says a
  system holds the list of currently-matching entity handles, that a matching entity is
  added to the cached entity list, and that on destruction the entity is removed from
  the list.\<close>

definition AddEntityToSystem :: "System \<Rightarrow> Entity \<Rightarrow> System" where
  "AddEntityToSystem sys entity = sys\<lparr>m_entities := m_entities sys @ [entity]\<rparr>"

text \<open>Modelled from the spec: System.cpp is not among the sources; every handle equal
  to the entity is removed from the system's list.\<close>

definition RemoveEntityFromSystem :: "System \<Rightarrow> Entity \<Rightarrow> System" where
  "RemoveEntityFromSystem sys entity =
     sys\<lparr>m_entities := filter (\<lambda>other. \<not> Entity_eq entity other) (m_entities sys)\<rparr>"

text \<open>\<open>std::bitset<MAX_COMPONENTS>\<close>: \<open>set\<close> and \<open>test\<close> throw
  \<open>std::out_of_range\<close> for a position outside the bitset.\<close>

definition bitset_set :: "Signature \<Rightarrow> nat \<Rightarrow> bool \<Rightarrow> error + Signature" where
  "bitset_set sig pos val =
     (if pos \<ge> MAX_COMPONENTS then Inl OutOfRange
      else Inr (if val then set_bit pos sig else unset_bit pos sig))"

definition bitset_test :: "Signature \<Rightarrow> nat \<Rightarrow> error + bool" where
  "bitset_test sig pos = (if pos \<ge> MAX_COMPONENTS then Inl OutOfRange else Inr (bit sig pos))"

definition RequireComponent :: "System \<Rightarrow> nat \<Rightarrow> error + System" where
  "RequireComponent sys componentId =
     (case bitset_set (m_componentSignature sys) componentId True of
        Inl err \<Rightarrow> Inl err
      | Inr sig \<Rightarrow> Inr (sys\<lparr>m_componentSignature := sig\<rparr>))"

section \<open>Registry (Registry.h, Registry.cpp)\<close>

record GroupData =
  entities :: "Entity list"
  entityToIndex :: "EntityID \<rightharpoonup> int"

text \<open>
  The component kind \<open>T\<close> of the templates is its number \<open>Component<T>::GetId()\<close>
  (Component.h is not among the sources), passed as \<open>componentId\<close>; a system type is
  its key in \<open>m_systems\<close>. The values of all component kinds are of one type \<open>'a\<close>.
  \<open>m_systems\<close> is the unordered map in its iteration order.
\<close>

record 'a Registry =
  m_numEntities :: nat
  m_entitiesToBeAdded :: "Entity list"
  m_entitiesToBeKilled :: "Entity list"
  m_componentPools :: "'a Pool option list"
  m_entityComponentSignatures :: "Signature list"
  m_systems :: "(nat \<times> System) list"
  m_freeIndices :: "u32 list"
  m_entityVersions :: "u32 list"
  m_entityToTag :: "u32 list"
  m_tagToEntity :: "u32 \<rightharpoonup> EntityID"
  m_groups :: "u32 \<rightharpoonup> GroupData"
  m_entityGroups :: "u32 list list"

definition Registry_init :: "'a Registry" where
  "Registry_init = \<lparr>m_numEntities = 0, m_entitiesToBeAdded = [], m_entitiesToBeKilled = [],
     m_componentPools = [], m_entityComponentSignatures = [], m_systems = [],
     m_freeIndices = [], m_entityVersions = [], m_entityToTag = [],
     m_tagToEntity = Map.empty, m_groups = Map.empty, m_entityGroups = []\<rparr>"

text \<open>\<open>std::vector::resize(n, v)\<close>.\<close>

definition resize :: "'b list \<Rightarrow> nat \<Rightarrow> 'b \<Rightarrow> 'b list" where
  "resize xs n v = (if n \<le> length xs then take n xs else xs @ replicate (n - length xs) v)"

subsection \<open>Entity management\<close>

definition IsValid :: "'a Registry \<Rightarrow> Entity \<Rightarrow> bool" where
  "IsValid r e =
     (let index = GetEntityIndex (GetId e)
      in if unat index \<ge> length (m_entityVersions r) then False
         else m_entityVersions r ! unat index = GetEntityVersion (GetId e))"

text \<open>\<open>m_numEntities\<close> is a signed int: incrementing it at \<open>INT_MAX\<close> is an
  overflow. Reading \<open>m_entityVersions[index]\<close> outside the vector is undefined.\<close>

definition CreateEntity :: "'a Registry \<Rightarrow> error + (Entity \<times> 'a Registry)" where
  "CreateEntity r =
     (if m_freeIndices r = [] \<and> m_numEntities r \<ge> 2 ^ 31 - 1 then Inl SignedOverflow
      else
        let (index, r1) =
              (if m_freeIndices r = [] then
                 let index = (word_of_nat (m_numEntities r) :: u32);
                     r0 = r\<lparr>m_numEntities := m_numEntities r + 1\<rparr>
                 in if unat index \<ge> length (m_entityVersions r0) then
                      (index,
                       r0\<lparr>m_entityVersions := resize (m_entityVersions r0) (unat (index + 1)) 0,
                          m_entityComponentSignatures :=
                            (if unat index \<ge> length (m_entityComponentSignatures r0)
                             then resize (m_entityComponentSignatures r0) (unat (index + 1)) 0
                             else m_entityComponentSignatures r0)\<rparr>)
                    else (index, r0)
               else (hd (m_freeIndices r), r\<lparr>m_freeIndices := tl (m_freeIndices r)\<rparr>))
        in if unat index \<ge> length (m_entityVersions r1) then Inl OutOfBounds
           else
             let version = m_entityVersions r1 ! unat index;
                 eid = CreateEntityId index version;
                 entity = \<lparr>m_id = eid, registry = this_registry\<rparr>
             in Inr (entity, r1\<lparr>m_entitiesToBeAdded := set_insert entity (m_entitiesToBeAdded r1)\<rparr>))"

definition KillEntity :: "'a Registry \<Rightarrow> Entity \<Rightarrow> 'a Registry" where
  "KillEntity r e =
     (if \<not> IsValid r e then r
      else r\<lparr>m_entitiesToBeKilled := set_insert e (m_entitiesToBeKilled r)\<rparr>)"

subsection \<open>System membership\<close>

text \<open>\<open>m_systems.insert\<close> keeps an existing entry of the same type.\<close>

definition AddSystem :: "'a Registry \<Rightarrow> nat \<Rightarrow> System \<Rightarrow> 'a Registry" where
  "AddSystem r ty newSystem =
     (if ty \<in> fst ` set (m_systems r) then r
      else r\<lparr>m_systems := m_systems r @ [(ty, newSystem)]\<rparr>)"

definition AddEntityToSystems :: "'a Registry \<Rightarrow> Entity \<Rightarrow> error + 'a Registry" where
  "AddEntityToSystems r e =
     (let entityId = GetId e;
          index = GetEntityIndex entityId
      in if unat index \<ge> length (m_entityComponentSignatures r) then Inl OutOfBounds
         else
           let entityComponentSignature = m_entityComponentSignatures r ! unat index
           in Inr (r\<lparr>m_systems :=
                    map (\<lambda>(ty, sys).
                           let systemComponentSignature = m_componentSignature sys;
                               isInterested = ((entityComponentSignature AND systemComponentSignature)
                                                = systemComponentSignature)
                           in if isInterested then (ty, AddEntityToSystem sys e) else (ty, sys))
                        (m_systems r)\<rparr>))"

definition RemoveEntityFromSystems :: "'a Registry \<Rightarrow> Entity \<Rightarrow> 'a Registry" where
  "RemoveEntityFromSystems r e =
     r\<lparr>m_systems := map (\<lambda>(ty, sys). (ty, RemoveEntityFromSystem sys e)) (m_systems r)\<rparr>"


subsection \<open>Component management\<close>

text \<open>\<open>GetPool<T>()\<close>: the null pointer is \<open>None\<close>.\<close>

definition GetPool :: "'a Registry \<Rightarrow> nat \<Rightarrow> 'a Pool option" where
  "GetPool r componentId =
     (if componentId \<ge> length (m_componentPools r) then None
      else m_componentPools r ! componentId)"

text \<open>\<open>AddComponent<T>(e, args...)\<close>; \<open>object\<close> is the constructed \<open>T(args...)\<close>.
  The signature table is indexed with the full 64-bit id, as the source does.\<close>

definition AddComponent :: "'a Registry \<Rightarrow> nat \<Rightarrow> Entity \<Rightarrow> 'a \<Rightarrow> error + 'a Registry" where
  "AddComponent r componentId e object =
     (let entityId = GetId e;
          pools1 = (if componentId \<ge> length (m_componentPools r)
                    then resize (m_componentPools r) (componentId + 1) None
                    else m_componentPools r);
          pool = (case pools1 ! componentId of None \<Rightarrow> Pool_init | Some p \<Rightarrow> p)
      in case Pool_Add pool entityId object of
           Inl err \<Rightarrow> Inl err
         | Inr pool' \<Rightarrow>
             (if unat entityId \<ge> length (m_entityComponentSignatures r) then Inl OutOfBounds
              else case bitset_set (m_entityComponentSignatures r ! unat entityId) componentId True of
                     Inl err \<Rightarrow> Inl err
                   | Inr sig \<Rightarrow>
                       Inr (r\<lparr>m_componentPools := pools1[componentId := Some pool'],
                              m_entityComponentSignatures :=
                                (m_entityComponentSignatures r)[unat entityId := sig]\<rparr>)))"

definition RemoveComponent :: "'a Registry \<Rightarrow> nat \<Rightarrow> Entity \<Rightarrow> error + 'a Registry" where
  "RemoveComponent r componentId e =
     (let entityId = GetId e
      in case GetPool r componentId of
           None \<Rightarrow> Inl OutOfBounds
         | Some pool \<Rightarrow>
             (case Pool_RemoveEntityFromPool pool entityId of
                Inl err \<Rightarrow> Inl err
              | Inr pool' \<Rightarrow>
                  (if unat entityId \<ge> length (m_entityComponentSignatures r) then Inl OutOfBounds
                   else case bitset_set (m_entityComponentSignatures r ! unat entityId) componentId False of
                          Inl err \<Rightarrow> Inl err
                        | Inr sig \<Rightarrow>
                            Inr (r\<lparr>m_componentPools := (m_componentPools r)[componentId := Some pool'],
                                   m_entityComponentSignatures :=
                                     (m_entityComponentSignatures r)[unat entityId := sig]\<rparr>))))"

definition HasComponent :: "'a Registry \<Rightarrow> nat \<Rightarrow> Entity \<Rightarrow> error + bool" where
  "HasComponent r componentId e =
     (let entityId = GetId e
      in if unat entityId \<ge> length (m_entityComponentSignatures r) then Inl OutOfBounds
         else bitset_test (m_entityComponentSignatures r ! unat entityId) componentId)"

definition GetComponent :: "'a Registry \<Rightarrow> nat \<Rightarrow> Entity \<Rightarrow> error + 'a" where
  "GetComponent r componentId e =
     (case GetPool r componentId of
        None \<Rightarrow> Inl OutOfBounds
      | Some pool \<Rightarrow> Pool_Get pool (GetId e))"

subsection \<open>View\<close>

text \<open>The arguments of one call of the callback: the entity id and, for each listed
  kind in the listed order, the component of that entity.\<close>

fun view_args :: "'a Pool list \<Rightarrow> EntityID \<Rightarrow> error + 'a list" where
  "view_args [] entityId = Inr []"
| "view_args (p # ps) entityId =
     (case Pool_Get p entityId of
        Inl err \<Rightarrow> Inl err
      | Inr v \<Rightarrow> (case view_args ps entityId of
                    Inl err \<Rightarrow> Inl err
                  | Inr vs \<Rightarrow> Inr (v # vs)))"

text \<open>The loop over the leader's entities; the result lists the calls of the callback
  in order.\<close>

fun view_loop :: "'a Pool list \<Rightarrow> EntityID list \<Rightarrow> error + (EntityID \<times> 'a list) list" where
  "view_loop pools [] = Inr []"
| "view_loop pools (entityId # rest) =
     (let hasAll = list_all (\<lambda>p. Pool_Has p entityId) pools
      in if hasAll then
           (case view_args pools entityId of
              Inl err \<Rightarrow> Inl err
            | Inr vs \<Rightarrow> (case view_loop pools rest of
                          Inl err \<Rightarrow> Inl err
                        | Inr calls \<Rightarrow> Inr ((entityId, vs) # calls)))
         else view_loop pools rest)"

text \<open>\<open>View<Components...>(func)\<close> for the kinds \<open>components\<close>; the template needs at
  least one kind.\<close>

definition View :: "'a Registry \<Rightarrow> nat list \<Rightarrow> error + (EntityID \<times> 'a list) list" where
  "View r components =
     (if list_ex (\<lambda>c. GetPool r c = None) components then Inr []
      else
        let pools = map (\<lambda>c. the (GetPool r c)) components
        in case pools of
             [] \<Rightarrow> Inr []
           | leaderPool # _ \<Rightarrow> view_loop pools (m_packed leaderPool))"

subsection \<open>Tag management\<close>

text \<open>\<open>index + 1\<close> is computed in 32 bits: for the slot index \<open>0xFFFFFFFF\<close> the
  vector is resized to 0 and the assignment is outside it.\<close>

definition TagEntity :: "'a Registry \<Rightarrow> Entity \<Rightarrow> string \<Rightarrow> error + 'a Registry" where
  "TagEntity r e tag =
     (let index = GetEntityIndex (GetId e);
          hash = HashString tag;
          tags1 = (if unat index \<ge> length (m_entityToTag r)
                   then resize (m_entityToTag r) (unat (index + 1)) 0
                   else m_entityToTag r)
      in if unat index \<ge> length tags1 then Inl OutOfBounds
         else Inr (r\<lparr>m_entityToTag := tags1[unat index := hash],
                     m_tagToEntity := (m_tagToEntity r)(hash \<mapsto> GetId e)\<rparr>))"

definition EntityHasTag :: "'a Registry \<Rightarrow> Entity \<Rightarrow> string \<Rightarrow> bool" where
  "EntityHasTag r e tag =
     (let index = GetEntityIndex (GetId e)
      in if unat index \<ge> length (m_entityToTag r) then False
         else m_entityToTag r ! unat index = HashString tag)"

definition GetEntityByTag :: "'a Registry \<Rightarrow> string \<Rightarrow> Entity" where
  "GetEntityByTag r tag =
     (let hash = HashString tag
      in case m_tagToEntity r hash of
           Some eid \<Rightarrow> \<lparr>m_id = eid, registry = this_registry\<rparr>
         | None \<Rightarrow> \<lparr>m_id = 0, registry = nullptr\<rparr>)"

definition RemoveEntityTag :: "'a Registry \<Rightarrow> Entity \<Rightarrow> 'a Registry" where
  "RemoveEntityTag r e =
     (let index = GetEntityIndex (GetId e)
      in if unat index \<ge> length (m_entityToTag r) then r
         else
           let hash = m_entityToTag r ! unat index
           in if hash \<noteq> 0 then
                r\<lparr>m_tagToEntity := (m_tagToEntity r)(hash := None),
                   m_entityToTag := (m_entityToTag r)[unat index := 0]\<rparr>
              else r)"

subsection \<open>Group management\<close>

text \<open>\<open>m_groups[groupHash]\<close> creates an empty group when there is none.\<close>

definition GroupEntity :: "'a Registry \<Rightarrow> Entity \<Rightarrow> string \<Rightarrow> error + 'a Registry" where
  "GroupEntity r e groupName =
     (let groupHash = HashString groupName;
          grp = (case m_groups r groupHash of
                   None \<Rightarrow> \<lparr>entities = [], entityToIndex = Map.empty\<rparr>
                 | Some g \<Rightarrow> g);
          eid = GetId e;
          index = GetEntityIndex (GetId e)
      in if entityToIndex grp eid \<noteq> None
         then Inr (r\<lparr>m_groups := (m_groups r)(groupHash \<mapsto> grp)\<rparr>)
         else
           let entities' = entities grp @ [e];
               grp' = \<lparr>entities = entities',
                       entityToIndex = (entityToIndex grp)(eid \<mapsto> int_cast (length entities') - 1)\<rparr>;
               groups1 = (if unat index \<ge> length (m_entityGroups r)
                          then resize (m_entityGroups r) (unat (index + 1)) []
                          else m_entityGroups r)
           in if unat index \<ge> length groups1 then Inl OutOfBounds
              else Inr (r\<lparr>m_groups := (m_groups r)(groupHash \<mapsto> grp'),
                          m_entityGroups := groups1[unat index := groups1 ! unat index @ [groupHash]]\<rparr>))"

text \<open>\<open>GetEntitiesByGroup\<close>: \<open>m_groups[hash]\<close> creates an empty group when there is
  none; the result is the entity list and the registry after the lookup.\<close>

definition GetEntitiesByGroup :: "'a Registry \<Rightarrow> string \<Rightarrow> Entity list \<times> 'a Registry" where
  "GetEntitiesByGroup r groupName =
     (let groupHash = HashString groupName;
          grp = (case m_groups r groupHash of
                   None \<Rightarrow> \<lparr>entities = [], entityToIndex = Map.empty\<rparr>
                 | Some g \<Rightarrow> g)
      in (entities grp, r\<lparr>m_groups := (m_groups r)(groupHash \<mapsto> grp)\<rparr>))"

definition EntityBelongsToGroup :: "'a Registry \<Rightarrow> Entity \<Rightarrow> string \<Rightarrow> bool" where
  "EntityBelongsToGroup r e groupName =
     (case m_groups r (HashString groupName) of
        None \<Rightarrow> False
      | Some g \<Rightarrow> entityToIndex g (GetId e) \<noteq> None)"

text \<open>The swap-and-pop of one group in \<open>RemoveEntityGroup\<close>; reading
  \<open>group.entities\<close> outside the vector and \<open>pop_back\<close> on an empty vector are undefined.\<close>

definition group_remove :: "GroupData \<Rightarrow> EntityID \<Rightarrow> error + GroupData" where
  "group_remove grp eid =
     (case entityToIndex grp eid of
        None \<Rightarrow> Inr grp
      | Some indexToRemove \<Rightarrow>
          (let indexLast = int_cast (length (entities grp)) - 1;
               swapped =
                 (if indexToRemove \<noteq> indexLast then
                    if indexLast < 0 \<or> nat indexLast \<ge> length (entities grp)
                       \<or> indexToRemove < 0 \<or> nat indexToRemove \<ge> length (entities grp)
                    then Inl OutOfBounds
                    else
                      let lastEntity = entities grp ! nat indexLast
                      in Inr \<lparr>entities = (entities grp)[nat indexToRemove := lastEntity],
                              entityToIndex = (entityToIndex grp)(GetId lastEntity \<mapsto> indexToRemove)\<rparr>
                  else Inr grp)
           in (case swapped of
                 Inl err \<Rightarrow> Inl err
               | Inr g1 \<Rightarrow>
                   if entities g1 = [] then Inl OutOfBounds
                   else Inr \<lparr>entities = butlast (entities g1),
                            entityToIndex = (entityToIndex g1)(eid := None)\<rparr>)))"

fun group_remove_loop :: "(u32 \<rightharpoonup> GroupData) \<Rightarrow> EntityID \<Rightarrow> u32 list \<Rightarrow> error + (u32 \<rightharpoonup> GroupData)" where
  "group_remove_loop groups eid [] = Inr groups"
| "group_remove_loop groups eid (groupHash # rest) =
     (case groups groupHash of
        None \<Rightarrow> group_remove_loop groups eid rest
      | Some grp \<Rightarrow>
          (case group_remove grp eid of
             Inl err \<Rightarrow> Inl err
           | Inr grp' \<Rightarrow> group_remove_loop (groups(groupHash \<mapsto> grp')) eid rest))"

definition RemoveEntityGroup :: "'a Registry \<Rightarrow> Entity \<Rightarrow> error + 'a Registry" where
  "RemoveEntityGroup r e =
     (let eid = GetId e;
          index = GetEntityIndex eid
      in if unat index \<ge> length (m_entityGroups r) then Inr r
         else
           let groupsOfEntity = m_entityGroups r ! unat index
           in case group_remove_loop (m_groups r) eid groupsOfEntity of
                Inl err \<Rightarrow> Inl err
              | Inr groups' \<Rightarrow>
                  Inr (r\<lparr>m_groups := groups',
                         m_entityGroups := (m_entityGroups r)[unat index := []]\<rparr>))"

subsection \<open>Update\<close>

fun remove_from_pools :: "'a Pool option list \<Rightarrow> EntityID \<Rightarrow> error + 'a Pool option list" where
  "remove_from_pools [] eid = Inr []"
| "remove_from_pools (None # pools) eid =
     (case remove_from_pools pools eid of
        Inl err \<Rightarrow> Inl err
      | Inr pools' \<Rightarrow> Inr (None # pools'))"
| "remove_from_pools (Some pool # pools) eid =
     (case Pool_RemoveEntityFromPool pool eid of
        Inl err \<Rightarrow> Inl err
      | Inr pool' \<Rightarrow>
          (case remove_from_pools pools eid of
             Inl err \<Rightarrow> Inl err
           | Inr pools' \<Rightarrow> Inr (Some pool' # pools')))"

text \<open>The body of the loop over \<open>m_entitiesToBeKilled\<close>.\<close>

definition kill_one :: "'a Registry \<Rightarrow> Entity \<Rightarrow> error + 'a Registry" where
  "kill_one r e =
     (if \<not> IsValid r e then Inr r
      else
        let index = GetEntityIndex (GetId e);
            r1 = RemoveEntityFromSystems r e
        in if unat index \<ge> length (m_entityComponentSignatures r1) then Inl OutOfBounds
           else
             let r2 = r1\<lparr>m_entityComponentSignatures :=
                          (m_entityComponentSignatures r1)[unat index := 0]\<rparr>
             in case remove_from_pools (m_componentPools r2) (GetId e) of
                  Inl err \<Rightarrow> Inl err
                | Inr pools' \<Rightarrow>
                    (let r3 = r2\<lparr>m_componentPools := pools'\<rparr>;
                         r4 = RemoveEntityTag r3 e
                     in case RemoveEntityGroup r4 e of
                          Inl err \<Rightarrow> Inl err
                        | Inr r5 \<Rightarrow>
                            Inr (r5\<lparr>m_entityVersions :=
                                      (m_entityVersions r5)[unat index := m_entityVersions r5 ! unat index + 1],
                                   m_freeIndices := m_freeIndices r5 @ [index]\<rparr>)))"

fun add_loop :: "'a Registry \<Rightarrow> Entity list \<Rightarrow> error + 'a Registry" where
  "add_loop r [] = Inr r"
| "add_loop r (e # es) =
     (case AddEntityToSystems r e of
        Inl err \<Rightarrow> Inl err
      | Inr r' \<Rightarrow> add_loop r' es)"

fun kill_loop :: "'a Registry \<Rightarrow> Entity list \<Rightarrow> error + 'a Registry" where
  "kill_loop r [] = Inr r"
| "kill_loop r (e # es) =
     (case kill_one r e of
        Inl err \<Rightarrow> Inl err
      | Inr r' \<Rightarrow> kill_loop r' es)"

definition Update :: "'a Registry \<Rightarrow> error + 'a Registry" where
  "Update r =
     (case add_loop r (m_entitiesToBeAdded r) of
        Inl err \<Rightarrow> Inl err
      | Inr r1 \<Rightarrow>
          (let r2 = r1\<lparr>m_entitiesToBeAdded := []\<rparr>
           in case kill_loop r2 (m_entitiesToBeKilled r2) of
                Inl err \<Rightarrow> Inl err
              | Inr r3 \<Rightarrow> Inr (r3\<lparr>m_entitiesToBeKilled := []\<rparr>)))"


section \<open>Specification of the pool\<close>

definition slot_of :: "EntityID \<Rightarrow> nat" where
  "slot_of eid = unat (GetEntityIndex eid)"

text \<open>The sparse entry of a slot: \<open>m_sparse[slot / PAGE_SIZE][slot % PAGE_SIZE]\<close>.\<close>

definition sparse_entry :: "int list option list \<Rightarrow> nat \<Rightarrow> int option" where
  "sparse_entry sp s = sparse_read sp (s div PAGE_SIZE) (s mod PAGE_SIZE)"

text \<open>Every allocated page is an array of \<open>PAGE_SIZE\<close> ints.\<close>

definition pages_wf :: "int list option list \<Rightarrow> bool" where
  "pages_wf sp = list_all (\<lambda>pg. case pg of None \<Rightarrow> True | Some a \<Rightarrow> length a = PAGE_SIZE) sp"

text \<open>The allocation of a page in \<open>Pool::Add\<close>.\<close>

definition alloc_page :: "int list option list \<Rightarrow> nat \<Rightarrow> int list option list" where
  "alloc_page sp page =
     (case sp ! page of None \<Rightarrow> sp[page := Some (replicate PAGE_SIZE (-1))] | Some pg \<Rightarrow> sp)"

text \<open>
  The packing invariant in the form the data model states it: the two dense arrays are
  index-aligned, the sparse entry of the slot of \<open>m_packed[i]\<close> is \<open>i\<close>, and every
  sparse entry other than \<open>-1\<close> is the position of an entity of that slot. The sparse
  vector keeps the size the constructor gave it.
\<close>

definition pool_inv :: "'a Pool \<Rightarrow> bool" where
  "pool_inv p \<longleftrightarrow>
     length (m_data p) = length (m_packed p) \<and>
     length (m_sparse p) = MAX_ENTITIES div PAGE_SIZE + 1 \<and>
     pages_wf (m_sparse p) \<and>
     (\<forall>i < length (m_packed p). sparse_entry (m_sparse p) (slot_of (m_packed p ! i)) = Some (int i)) \<and>
     (\<forall>s k. sparse_entry (m_sparse p) s = Some k \<longrightarrow> k \<noteq> -1 \<longrightarrow>
        0 \<le> k \<and> nat k < length (m_packed p) \<and> slot_of (m_packed p ! nat k) = s)"

text \<open>
  The round trip of the testable property: the dense arrays have equal length, and for
  every entry \<open>eid\<close> of the dense entity array
  \<open>dense_entity[sparse[slot(eid)]] == eid\<close>.
\<close>

definition packing_invariant :: "'a Pool \<Rightarrow> bool" where
  "packing_invariant p \<longleftrightarrow>
     length (m_data p) = length (m_packed p) \<and>
     list_all (\<lambda>eid. case sparse_entry (m_sparse p) (slot_of eid) of
                        None \<Rightarrow> False
                      | Some k \<Rightarrow> 0 \<le> k \<and> nat k < length (m_packed p) \<and> m_packed p ! nat k = eid)
              (m_packed p)"

text \<open>Sequences of \<open>Add\<close> and \<open>Remove\<close> calls on one pool.\<close>

datatype 'a pool_op = OpAdd EntityID 'a | OpRemove EntityID

fun Pool_apply :: "'a Pool \<Rightarrow> 'a pool_op \<Rightarrow> error + 'a Pool" where
  "Pool_apply p (OpAdd eid v) = Pool_Add p eid v"
| "Pool_apply p (OpRemove eid) = Pool_Remove p eid"

fun Pool_run :: "'a Pool \<Rightarrow> 'a pool_op list \<Rightarrow> error + 'a Pool" where
  "Pool_run p [] = Inr p"
| "Pool_run p (x # xs) =
     (case Pool_apply p x of
        Inl err \<Rightarrow> Inl err
      | Inr p' \<Rightarrow> Pool_run p' xs)"

text \<open>Every \<open>Add\<close> of the sequence is for an entity the pool does not have at that
  moment (\<open>Has\<close> is false).\<close>

fun adds_fresh :: "'a Pool \<Rightarrow> 'a pool_op list \<Rightarrow> bool" where
  "adds_fresh p [] = True"
| "adds_fresh p (x # xs) =
     ((case x of OpAdd eid v \<Rightarrow> \<not> Pool_Has p eid | OpRemove eid \<Rightarrow> True) \<and>
      (case Pool_apply p x of Inl err \<Rightarrow> True | Inr p' \<Rightarrow> adds_fresh p' xs))"

section \<open>Scenarios\<close>

text \<open>A sequence on a pool of numbers in which every \<open>Add\<close> is for an absent entity,
  and the pool it leaves.\<close>

definition ops_ok :: "nat pool_op list" where
  "ops_ok = [OpAdd 5 10, OpAdd 0x100000007 20, OpRemove 5, OpAdd 5 30, OpRemove 9]"

definition pool_ok :: "nat Pool" where
  "pool_ok = \<lparr>m_data = [20, 30], m_packed = [0x100000007, 5],
      m_sparse = (replicate 245 None)[0 := Some ((replicate 4096 (-1))[7 := 0, 5 := 1])]\<rparr>"

text \<open>The same entity added twice, then removed, and the pool that leaves.\<close>

definition ops_double_add :: "nat pool_op list" where
  "ops_double_add = [OpAdd 5 10, OpAdd 5 20, OpRemove 5]"

definition pool_double_add :: "nat Pool" where
  "pool_double_add = \<lparr>m_data = [10], m_packed = [5],
      m_sparse = (replicate 245 None)[0 := Some ((replicate 4096 (-1))[5 := -1])]\<rparr>"


section \<open>Specification of the registry\<close>

definition entity_slot :: "Entity \<Rightarrow> u32" where
  "entity_slot e = GetEntityIndex (GetId e)"

text \<open>The pending-destroy set as the registry keeps it: a \<open>std::set\<close>, so strictly
  ordered by id, and filled by \<open>KillEntity\<close> only, so holding valid handles.\<close>

definition pending_kills_ok :: "'a Registry \<Rightarrow> bool" where
  "pending_kills_ok r \<longleftrightarrow>
     sorted_wrt Entity_less (m_entitiesToBeKilled r) \<and> list_all (IsValid r) (m_entitiesToBeKilled r)"

text \<open>Two pools hold the same identifier for every slot that both hold.\<close>

definition pools_agree :: "'a Pool \<Rightarrow> 'a Pool \<Rightarrow> bool" where
  "pools_agree pA pB \<longleftrightarrow>
     list_all (\<lambda>x. list_all (\<lambda>y. slot_of x = slot_of y \<longrightarrow> x = y) (m_packed pB)) (m_packed pA)"

text \<open>Sequences of calls on one registry, to state how a scenario is reached.\<close>

datatype 'a registry_call =
    Call_CreateEntity
  | Call_KillEntity Entity
  | Call_Update
  | Call_AddComponent nat Entity 'a
  | Call_RemoveComponent nat Entity
  | Call_TagEntity Entity string
  | Call_RemoveEntityTag Entity
  | Call_GroupEntity Entity string
  | Call_RemoveEntityGroup Entity
  | Call_AddSystem nat System

fun Registry_call :: "'a Registry \<Rightarrow> 'a registry_call \<Rightarrow> error + 'a Registry" where
  "Registry_call r Call_CreateEntity =
     (case CreateEntity r of Inl err \<Rightarrow> Inl err | Inr (e, r') \<Rightarrow> Inr r')"
| "Registry_call r (Call_KillEntity e) = Inr (KillEntity r e)"
| "Registry_call r Call_Update = Update r"
| "Registry_call r (Call_AddComponent componentId e object) = AddComponent r componentId e object"
| "Registry_call r (Call_RemoveComponent componentId e) = RemoveComponent r componentId e"
| "Registry_call r (Call_TagEntity e tag) = TagEntity r e tag"
| "Registry_call r (Call_RemoveEntityTag e) = Inr (RemoveEntityTag r e)"
| "Registry_call r (Call_GroupEntity e groupName) = GroupEntity r e groupName"
| "Registry_call r (Call_RemoveEntityGroup e) = RemoveEntityGroup r e"
| "Registry_call r (Call_AddSystem ty newSystem) = Inr (AddSystem r ty newSystem)"

fun Registry_run :: "'a Registry \<Rightarrow> 'a registry_call list \<Rightarrow> error + 'a Registry" where
  "Registry_run r [] = Inr r"
| "Registry_run r (c # cs) =
     (case Registry_call r c of Inl err \<Rightarrow> Inl err | Inr r' \<Rightarrow> Registry_run r' cs)"

text \<open>No \<open>AddComponent\<close> of the sequence is for an entity that the pool of that kind
  holds at that moment.\<close>

fun calls_fresh :: "'a Registry \<Rightarrow> 'a registry_call list \<Rightarrow> bool" where
  "calls_fresh r [] = True"
| "calls_fresh r (c # cs) =
     ((case c of
         Call_AddComponent componentId e object \<Rightarrow>
           (case GetPool r componentId of None \<Rightarrow> True | Some p \<Rightarrow> \<not> Pool_Has p (GetId e))
       | _ \<Rightarrow> True) \<and>
      (case Registry_call r c of Inl err \<Rightarrow> True | Inr r' \<Rightarrow> calls_fresh r' cs))"

text \<open>No call of the sequence is \<open>Update\<close>.\<close>

definition no_Update :: "'a registry_call list \<Rightarrow> bool" where
  "no_Update cs = list_all (\<lambda>c. case c of Call_Update \<Rightarrow> False | _ \<Rightarrow> True) cs"

text \<open>No call of the sequence is \<open>CreateEntity\<close>, and none kills a handle of the slot
  of \<open>e\<close>.\<close>

definition no_allocation :: "Entity \<Rightarrow> 'a registry_call list \<Rightarrow> bool" where
  "no_allocation e cs =
     list_all (\<lambda>c. case c of Call_CreateEntity \<Rightarrow> False
                   | Call_KillEntity x \<Rightarrow> entity_slot x \<noteq> entity_slot e
                   | _ \<Rightarrow> True) cs"

text \<open>No call of the sequence assigns the tag name.\<close>

definition tag_never_assigned :: "string \<Rightarrow> 'a registry_call list \<Rightarrow> bool" where
  "tag_never_assigned tag cs =
     list_all (\<lambda>c. case c of Call_TagEntity e t \<Rightarrow> t \<noteq> tag | _ \<Rightarrow> True) cs"

text \<open>No call of the sequence assigns a tag name with the hash of the tag name; the
  maps of the registry are keyed by the hash.\<close>

definition hash_never_assigned :: "string \<Rightarrow> 'a registry_call list \<Rightarrow> bool" where
  "hash_never_assigned tag cs =
     list_all (\<lambda>c. case c of Call_TagEntity e t \<Rightarrow> HashString t \<noteq> HashString tag | _ \<Rightarrow> True) cs"

text \<open>A pool satisfies the packing invariant and holds only identifiers below \<open>n\<close>;
  every pool of a registry does, with \<open>n\<close> the size of the signature table, which has
  at most \<open>2^32\<close> entries.\<close>

definition pool_wf :: "nat \<Rightarrow> 'a Pool option \<Rightarrow> bool" where
  "pool_wf n po =
     (case po of None \<Rightarrow> True
      | Some p \<Rightarrow> pool_inv p \<and> list_all (\<lambda>eid. unat eid < n) (m_packed p))"

definition registry_pools_ok :: "'a Registry \<Rightarrow> bool" where
  "registry_pools_ok r \<longleftrightarrow>
     length (m_entityComponentSignatures r) \<le> 2 ^ 32 \<and>
     list_all (pool_wf (length (m_entityComponentSignatures r))) (m_componentPools r)"

section \<open>Scenarios of the registry\<close>

text \<open>Handles: slot 0 and slot 1 in generation 0 and in generation 1, and slot 5,
  which no registry below has issued.\<close>

definition e0 :: Entity where
  "e0 = \<lparr>m_id = 0, registry = this_registry\<rparr>"

definition e0_gen1 :: Entity where
  "e0_gen1 = \<lparr>m_id = 0x100000000, registry = this_registry\<rparr>"

definition e1 :: Entity where
  "e1 = \<lparr>m_id = 1, registry = this_registry\<rparr>"

definition e1_gen1 :: Entity where
  "e1_gen1 = \<lparr>m_id = 0x100000001, registry = this_registry\<rparr>"

definition e5 :: Entity where
  "e5 = \<lparr>m_id = 5, registry = this_registry\<rparr>"

text \<open>One entity created; then killed and synchronized; then the slot recycled.\<close>

definition reg_created :: "nat Registry" where
  "reg_created = Registry_init\<lparr>m_numEntities := 1, m_entitiesToBeAdded := [e0],
      m_entityComponentSignatures := [0], m_entityVersions := [0]\<rparr>"

definition reg_recycled :: "nat Registry" where
  "reg_recycled = Registry_init\<lparr>m_numEntities := 1, m_entityComponentSignatures := [0],
      m_entityVersions := [1], m_freeIndices := [0]\<rparr>"

definition reg_recreated :: "nat Registry" where
  "reg_recreated = reg_recycled\<lparr>m_freeIndices := [], m_entitiesToBeAdded := [e0_gen1]\<rparr>"

text \<open>Two entities created, killed and synchronized, leaving both slots in the
  free-list; then slot 0 recycled, killed and synchronized; then the next creation.\<close>

definition reg_two_created :: "nat Registry" where
  "reg_two_created = Registry_init\<lparr>m_numEntities := 2, m_entitiesToBeAdded := [e0, e1],
      m_entityComponentSignatures := [0, 0], m_entityVersions := [0, 0]\<rparr>"

definition reg_two_free :: "nat Registry" where
  "reg_two_free = Registry_init\<lparr>m_numEntities := 2, m_entityComponentSignatures := [0, 0],
      m_entityVersions := [1, 1], m_freeIndices := [0, 1]\<rparr>"

definition reg_two_a :: "nat Registry" where
  "reg_two_a = reg_two_free\<lparr>m_freeIndices := [1], m_entitiesToBeAdded := [e0_gen1]\<rparr>"

definition reg_two_b :: "nat Registry" where
  "reg_two_b = reg_two_free\<lparr>m_freeIndices := [1, 0], m_entityVersions := [2, 1]\<rparr>"

definition reg_two_c :: "nat Registry" where
  "reg_two_c = reg_two_b\<lparr>m_freeIndices := [0], m_entitiesToBeAdded := [e1_gen1]\<rparr>"

text \<open>A system requiring component kind 0, and a registry with that system and one
  visible entity without components; then the component added; then removed.\<close>

definition sys0 :: System where
  "sys0 = \<lparr>m_componentSignature = 1, m_entities = []\<rparr>"



definition reg_sys_visible :: "nat Registry" where
  "reg_sys_visible = Registry_init\<lparr>m_numEntities := 1, m_entityComponentSignatures := [0],
      m_systems := [(0, sys0)], m_entityVersions := [0]\<rparr>"



text \<open>The first entity tagged \<open>a\<close> and then tagged \<open>b\<close>.\<close>

definition reg_tagged :: "nat Registry" where
  "reg_tagged = reg_created\<lparr>m_entityToTag := [HashString ''a''],
      m_tagToEntity := [HashString ''a'' \<mapsto> 0]\<rparr>"

definition reg_retagged :: "nat Registry" where
  "reg_retagged = reg_created\<lparr>m_entityToTag := [HashString ''b''],
      m_tagToEntity := [HashString ''a'' \<mapsto> 0, HashString ''b'' \<mapsto> 0]\<rparr>"

text \<open>Three entities, kind 0 on all of them and kind 1 on the first and the third.\<close>

definition e2 :: Entity where
  "e2 = \<lparr>m_id = 2, registry = this_registry\<rparr>"

definition view_pool_a :: "nat Pool" where
  "view_pool_a = \<lparr>m_data = [10, 11, 12], m_packed = [0, 1, 2],
      m_sparse = (replicate 245 None)[0 := Some ((replicate 4096 (-1))[0 := 0, 1 := 1, 2 := 2])]\<rparr>"

definition view_pool_b :: "nat Pool" where
  "view_pool_b = \<lparr>m_data = [100, 102], m_packed = [0, 2],
      m_sparse = (replicate 245 None)[0 := Some ((replicate 4096 (-1))[0 := 0, 2 := 1])]\<rparr>"

definition reg_view :: "nat Registry" where
  "reg_view = Registry_init\<lparr>m_numEntities := 3, m_entitiesToBeAdded := [e0, e1, e2],
      m_componentPools := [Some view_pool_a, Some view_pool_b],
      m_entityComponentSignatures := [3, 1, 3], m_entityVersions := [0, 0, 0]\<rparr>"

text \<open>One entity with kind 0 added twice and kind 1 added once.\<close>

definition double_pool_a :: "nat Pool" where
  "double_pool_a = \<lparr>m_data = [1, 2], m_packed = [0, 0],
      m_sparse = (replicate 245 None)[0 := Some ((replicate 4096 (-1))[0 := 1])]\<rparr>"

definition double_pool_b :: "nat Pool" where
  "double_pool_b = \<lparr>m_data = [3], m_packed = [0],
      m_sparse = (replicate 245 None)[0 := Some ((replicate 4096 (-1))[0 := 0])]\<rparr>"

definition reg_double :: "nat Registry" where
  "reg_double = Registry_init\<lparr>m_numEntities := 1, m_entitiesToBeAdded := [e0],
      m_componentPools := [Some double_pool_a, Some double_pool_b],
      m_entityComponentSignatures := [3], m_entityVersions := [0]\<rparr>"

text \<open>One entity created and synchronized, so visible.\<close>

definition reg_flushed :: "nat Registry" where
  "reg_flushed = reg_created\<lparr>m_entitiesToBeAdded := []\<rparr>"

text \<open>Two entities created, the second killed, and synchronized; then the first
  killed and synchronized; then the next creation.\<close>

definition reg_one_free :: "nat Registry" where
  "reg_one_free = Registry_init\<lparr>m_numEntities := 2, m_entityComponentSignatures := [0, 0],
      m_entityVersions := [0, 1], m_freeIndices := [1]\<rparr>"

definition reg_one_free_b :: "nat Registry" where
  "reg_one_free_b = reg_one_free\<lparr>m_entityVersions := [1, 1], m_freeIndices := [1, 0]\<rparr>"

definition reg_one_free_c :: "nat Registry" where
  "reg_one_free_c = reg_one_free_b\<lparr>m_freeIndices := [0], m_entitiesToBeAdded := [e1_gen1]\<rparr>"

text \<open>Two entities created and the second tagged \<open>costarring\<close>, a name with the hash
  of \<open>liquid\<close>.\<close>

definition reg_collision :: "nat Registry" where
  "reg_collision = reg_two_created\<lparr>m_entityToTag := [0, HashString ''costarring''],
      m_tagToEntity := [HashString ''costarring'' \<mapsto> 1]\<rparr>"

text \<open>The first entity tagged \<open>a\<close>, then killed and synchronized.\<close>

definition reg_tag_killed :: "nat Registry" where
  "reg_tag_killed = reg_recycled\<lparr>m_entityToTag := [0]\<rparr>"

text \<open>A tag name of four bytes whose hash is 0, and the first entity tagged with it.\<close>

definition zero_hash_tag :: string where
  "zero_hash_tag = [CHR 0xCC, CHR 0x24, CHR 0x31, CHR 0xC4]"

definition reg_zero_tagged :: "nat Registry" where
  "reg_zero_tagged = reg_created\<lparr>m_entityToTag := [0], m_tagToEntity := [0 \<mapsto> 0]\<rparr>"

section \<open>Evaluation rules\<close>

lemmas index_defs = GetEntityIndex_def GetEntityVersion_def CreateEntityId_def
  ENTITY_INDEX_MASK_def ENTITY_VERSION_MASK_def ENTITY_VERSION_SHIFT_def

lemmas const_defs = MAX_COMPONENTS_def MAX_ENTITIES_def PAGE_SIZE_def

lemmas pool_defs = Pool_init_def Pool_Has_def Pool_Add_def Pool_Remove_def Pool_Get_def
  Pool_RemoveEntityFromPool_def sparse_read_def sparse_write_def int_cast_def

lemmas entity_defs = GetId_def Entity_eq_def Entity_less_def

lemmas registry_defs = Registry_init_def resize_def IsValid_def CreateEntity_def KillEntity_def
  AddEntityToSystems_def RemoveEntityFromSystems_def AddEntityToSystem_def
  RemoveEntityFromSystem_def GetPool_def AddComponent_def RemoveComponent_def HasComponent_def
  GetComponent_def bitset_set_def bitset_test_def TagEntity_def EntityHasTag_def
  GetEntityByTag_def RemoveEntityTag_def RemoveEntityGroup_def group_remove_def kill_one_def
  Update_def

section \<open>The versioned index\<close>

lemma mask_low: "(0xFFFFFFFF :: 64 word) = mask 32"
  by (simp add: mask_eq_exp_minus_1)

lemma mask_high: "(0xFFFFFFFF00000000 :: 64 word) = push_bit 32 (mask 32)"
  by (simp add: mask_eq_exp_minus_1 push_bit_eq_mult)

lemma GetEntityIndex_CreateEntityId [simp]: "GetEntityIndex (CreateEntityId i v) = i"
  unfolding GetEntityIndex_def CreateEntityId_def ENTITY_INDEX_MASK_def ENTITY_VERSION_SHIFT_def mask_low
  by (rule bit_word_eqI) (auto simp: bit_simps dest: bit_imp_le_length)

lemma GetEntityVersion_CreateEntityId [simp]: "GetEntityVersion (CreateEntityId i v) = v"
  unfolding GetEntityVersion_def CreateEntityId_def ENTITY_VERSION_MASK_def ENTITY_VERSION_SHIFT_def mask_high
  by (rule bit_word_eqI) (auto simp: bit_simps dest: bit_imp_le_length)

lemma CreateEntityId_parts: "CreateEntityId (GetEntityIndex x) (GetEntityVersion x) = x"
  unfolding GetEntityIndex_def GetEntityVersion_def CreateEntityId_def ENTITY_INDEX_MASK_def
    ENTITY_VERSION_MASK_def ENTITY_VERSION_SHIFT_def mask_low mask_high
  by (rule bit_word_eqI) (auto simp: bit_simps)

lemma EntityID_eqI:
  "GetEntityIndex x = GetEntityIndex y \<Longrightarrow> GetEntityVersion x = GetEntityVersion y \<Longrightarrow> x = y"
  by (metis CreateEntityId_parts)

section \<open>The pool keeps its packing invariant\<close>

lemma PAGE_SIZE_pos: "0 < PAGE_SIZE" by (simp add: PAGE_SIZE_def)

lemma pages_wf_nth: "pages_wf sp \<Longrightarrow> page < length sp \<Longrightarrow> sp ! page = Some a \<Longrightarrow> length a = PAGE_SIZE"
  by (auto simp: pages_wf_def list_all_length split: option.splits)

lemma slot_eq_iff: "(s::nat) div PAGE_SIZE = t div PAGE_SIZE \<Longrightarrow> s mod PAGE_SIZE = t mod PAGE_SIZE \<Longrightarrow> s = t"
  by (metis div_mod_decomp)

lemma sparse_entry_write:
  assumes "pages_wf sp" "sparse_entry sp s \<noteq> None"
  shows "sparse_entry (sparse_write sp (s div PAGE_SIZE) (s mod PAGE_SIZE) v) t
           = (if t = s then Some v else sparse_entry sp t)"
proof -
  from assms(2) obtain a where lt: "s div PAGE_SIZE < length sp" and a: "sp ! (s div PAGE_SIZE) = Some a"
    by (auto simp: sparse_entry_def sparse_read_def split: if_splits option.splits)
  have la: "length a = PAGE_SIZE" using pages_wf_nth[OF assms(1) lt a] .
  have off: "s mod PAGE_SIZE < length a" using la PAGE_SIZE_pos by simp
  show ?thesis
  proof (cases "t div PAGE_SIZE = s div PAGE_SIZE")
    case True
    have ne: "t \<noteq> s \<Longrightarrow> t mod PAGE_SIZE \<noteq> s mod PAGE_SIZE"
      using True slot_eq_iff[of t s] by blast
    show ?thesis using True lt a off ne
      by (auto simp: sparse_entry_def sparse_read_def sparse_write_def)
  next
    case False
    then show ?thesis using lt
      by (auto simp: sparse_entry_def sparse_read_def sparse_write_def)
  qed
qed

lemma pages_wf_update:
  "pages_wf sp \<Longrightarrow> (case x of None \<Rightarrow> True | Some a \<Rightarrow> length a = PAGE_SIZE) \<Longrightarrow> pages_wf (sp[page := x])"
  by (auto simp: pages_wf_def list_all_iff dest!: set_update_subset_insert[THEN subsetD])

lemma pages_wf_write: "pages_wf sp \<Longrightarrow> pages_wf (sparse_write sp page offset v)"
proof (cases "page < length sp")
  case True
  assume wf: "pages_wf sp"
  have "case sp ! page of None \<Rightarrow> True | Some a \<Rightarrow> length a = PAGE_SIZE"
    using wf True by (simp add: pages_wf_def list_all_length)
  then have "case map_option (\<lambda>pg. pg[offset := v]) (sp ! page) of None \<Rightarrow> True | Some a \<Rightarrow> length a = PAGE_SIZE"
    by (cases "sp ! page") auto
  from pages_wf_update[OF wf this] show ?thesis by (simp add: sparse_write_def)
next
  case False
  assume "pages_wf sp"
  then show ?thesis using False by (simp add: sparse_write_def list_update_beyond)
qed

lemma length_sparse_write [simp]: "length (sparse_write sp page offset v) = length sp"
  by (simp add: sparse_write_def)


lemma length_alloc_page [simp]: "length (alloc_page sp page) = length sp"
  by (simp add: alloc_page_def split: option.splits)

lemma pages_wf_alloc: "pages_wf sp \<Longrightarrow> pages_wf (alloc_page sp page)"
  by (cases "sp ! page") (auto simp: alloc_page_def intro!: pages_wf_update)

lemma sparse_entry_alloc:
  assumes "page < length sp"
  shows "sparse_entry (alloc_page sp page) t =
          (if t div PAGE_SIZE = page \<and> sp ! page = None then Some (-1) else sparse_entry sp t)"
  using assms PAGE_SIZE_pos
  by (auto simp: sparse_entry_def sparse_read_def alloc_page_def split: option.splits)

lemma sparse_entry_SomeD:
  "sparse_entry sp t = Some k \<Longrightarrow> t div PAGE_SIZE < length sp \<and> sp ! (t div PAGE_SIZE) \<noteq> None"
  by (auto simp: sparse_entry_def sparse_read_def split: if_splits option.splits)

lemma sparse_entry_alloc_Some:
  assumes "page < length sp" "sparse_entry sp t = Some k"
  shows "sparse_entry (alloc_page sp page) t = Some k"
  using sparse_entry_SomeD[OF assms(2)] assms by (auto simp: sparse_entry_alloc[OF assms(1)])

lemma sparse_entry_bound: "sparse_entry sp s = Some k \<Longrightarrow> s < length sp * PAGE_SIZE"
proof -
  assume "sparse_entry sp s = Some k"
  then have "s div PAGE_SIZE < length sp"
    by (auto simp: sparse_entry_def sparse_read_def split: if_splits)
  then show ?thesis using PAGE_SIZE_pos
    by (simp add: less_mult_imp_div_less div_less_iff_less_mult)
qed

lemma pool_inv_length:
  assumes "pool_inv p"
  shows "length (m_packed p) \<le> (MAX_ENTITIES div PAGE_SIZE + 1) * PAGE_SIZE"
proof -
  let ?n = "length (m_packed p)"
  let ?f = "\<lambda>i. slot_of (m_packed p ! i)"
  have e: "\<forall>i < ?n. sparse_entry (m_sparse p) (?f i) = Some (int i)"
    using assms by (simp add: pool_inv_def)
  have inj: "inj_on ?f {..<?n}"
  proof (rule inj_onI)
    fix x y assume "x \<in> {..<?n}" "y \<in> {..<?n}" "?f x = ?f y"
    then show "x = y" using e by (metis lessThan_iff of_nat_eq_iff option.inject)
  qed
  have sub: "?f ` {..<?n} \<subseteq> {..<(MAX_ENTITIES div PAGE_SIZE + 1) * PAGE_SIZE}"
  proof
    fix s assume "s \<in> ?f ` {..<?n}"
    then obtain i where "i < ?n" "s = ?f i" by auto
    then have "sparse_entry (m_sparse p) s = Some (int i)" using e by simp
    from sparse_entry_bound[OF this] show "s \<in> {..<(MAX_ENTITIES div PAGE_SIZE + 1) * PAGE_SIZE}"
      using assms by (simp add: pool_inv_def)
  qed
  have "card {..<?n} \<le> card {..<(MAX_ENTITIES div PAGE_SIZE + 1) * PAGE_SIZE}"
    by (rule card_inj_on_le[OF inj sub]) simp
  then show ?thesis by simp
qed

lemma int_cast_small: "n < 2^31 \<Longrightarrow> int_cast n = int n"
  unfolding int_cast_def
  by (simp add: signed_of_nat signed_take_bit_int_eq_self)

lemma pool_inv_int_cast:
  assumes "pool_inv p"
  shows "int_cast (length (m_packed p)) = int (length (m_packed p))"
    and "int_cast (Suc (length (m_packed p))) = int (Suc (length (m_packed p)))"
proof -
  have b: "length (m_packed p) \<le> 1003520"
    using pool_inv_length[OF assms] by (simp add: MAX_ENTITIES_def PAGE_SIZE_def)
  show "int_cast (length (m_packed p)) = int (length (m_packed p))"
    by (rule int_cast_small) (use b in simp)
  show "int_cast (Suc (length (m_packed p))) = int (Suc (length (m_packed p)))"
    by (rule int_cast_small) (use b in simp)
qed

lemma Pool_Has_entry:
  "Pool_Has p eid \<longleftrightarrow> (\<exists>k. sparse_entry (m_sparse p) (slot_of eid) = Some k \<and> k \<noteq> -1)"
  by (auto simp: Pool_Has_def sparse_entry_def slot_of_def Let_def split: option.splits)

lemma sparse_entry_replicate_None [simp]: "sparse_entry (replicate n None) s = None"
  by (simp add: sparse_entry_def sparse_read_def)

lemma pool_inv_init: "pool_inv Pool_init"
  by (simp add: pool_inv_def Pool_init_def pages_wf_def list_all_iff del: replicate_Suc)

lemma Pool_Add_inv:
  assumes inv: "pool_inv p" and fresh: "\<not> Pool_Has p eid"
  shows "Pool_Add p eid v = Inl AssertionFailed \<or> (\<exists>p'. Pool_Add p eid v = Inr p' \<and> pool_inv p')"
proof (cases "slot_of eid div PAGE_SIZE < length (m_sparse p)")
  case False
  have len: "length (m_sparse p) = 245"
    using inv by (simp add: pool_inv_def MAX_ENTITIES_def PAGE_SIZE_def)
  from False len have "245 \<le> slot_of eid div 4096" by (simp add: PAGE_SIZE_def)
  then have "\<not> slot_of eid < MAX_ENTITIES" by (simp add: MAX_ENTITIES_def)
  with False show ?thesis
    by (simp add: Pool_Add_def Let_def slot_of_def)
next
  case True
  let ?s = "slot_of eid"
  let ?n = "length (m_packed p)"
  let ?sp = "m_sparse p"
  let ?sp1 = "alloc_page ?sp (?s div PAGE_SIZE)"
  let ?sp2 = "sparse_write ?sp1 (?s div PAGE_SIZE) (?s mod PAGE_SIZE) (int ?n)"
  let ?p' = "\<lparr>m_data = m_data p @ [v], m_packed = m_packed p @ [eid], m_sparse = ?sp2\<rparr>"
  have ld: "length (m_data p) = ?n" and wf: "pages_wf ?sp"
    and d2s: "\<forall>i < ?n. sparse_entry ?sp (slot_of (m_packed p ! i)) = Some (int i)"
    and s2d: "\<forall>s k. sparse_entry ?sp s = Some k \<longrightarrow> k \<noteq> -1 \<longrightarrow>
        0 \<le> k \<and> nat k < ?n \<and> slot_of (m_packed p ! nat k) = s"
    and lsp: "length ?sp = MAX_ENTITIES div PAGE_SIZE + 1"
    using inv by (auto simp: pool_inv_def)
  have cast: "int_cast (Suc ?n) - 1 = int ?n"
    using pool_inv_int_cast(2)[OF inv] by simp
  have eq: "Pool_Add p eid v = Inr ?p'"
    using True cast ld by (simp add: Pool_Add_def Let_def slot_of_def alloc_page_def)
  have e1: "\<And>t. sparse_entry ?sp1 t =
          (if t div PAGE_SIZE = ?s div PAGE_SIZE \<and> ?sp ! (?s div PAGE_SIZE) = None then Some (-1) else sparse_entry ?sp t)"
    using sparse_entry_alloc[OF True] by simp
  have ne1: "sparse_entry ?sp1 ?s \<noteq> None"
  proof (cases "?sp ! (?s div PAGE_SIZE)")
    case None
    then show ?thesis by (simp add: e1)
  next
    case (Some a)
    then have "sparse_entry ?sp ?s \<noteq> None"
      using True by (simp add: sparse_entry_def sparse_read_def)
    with Some show ?thesis by (simp add: e1)
  qed
  have wf1: "pages_wf ?sp1" using wf by (rule pages_wf_alloc)
  have e2: "\<And>t. sparse_entry ?sp2 t = (if t = ?s then Some (int ?n) else sparse_entry ?sp1 t)"
    using sparse_entry_write[OF wf1 ne1] by simp
  have fr: "\<And>k. sparse_entry ?sp ?s = Some k \<Longrightarrow> k = -1"
    using fresh by (auto simp: Pool_Has_entry)
  have "pool_inv ?p'"
    unfolding pool_inv_def
  proof (intro conjI allI impI)
    show "length (m_data ?p') = length (m_packed ?p')" using ld by simp
    show "length (m_sparse ?p') = MAX_ENTITIES div PAGE_SIZE + 1" using lsp by simp
    show "pages_wf (m_sparse ?p')" using wf1 by (simp add: pages_wf_write)
  next
    fix i assume "i < length (m_packed ?p')"
    then have i: "i < Suc ?n" by simp
    show "sparse_entry (m_sparse ?p') (slot_of (m_packed ?p' ! i)) = Some (int i)"
    proof (cases "i = ?n")
      case True
      then show ?thesis by (simp add: e2)
    next
      case False
      with i have lt: "i < ?n" by simp
      have old: "sparse_entry ?sp (slot_of (m_packed p ! i)) = Some (int i)" using d2s lt by simp
      then have "slot_of (m_packed p ! i) \<noteq> ?s" using fr by fastforce
      moreover have "sparse_entry ?sp1 (slot_of (m_packed p ! i)) = Some (int i)"
        using old True by (rule sparse_entry_alloc_Some[rotated])
      ultimately show ?thesis using lt by (simp add: e2 nth_append)
    qed
  next
    fix s k assume a: "sparse_entry (m_sparse ?p') s = Some k" "k \<noteq> -1"
    show "0 \<le> k" "nat k < length (m_packed ?p')" "slot_of (m_packed ?p' ! nat k) = s"
    proof -
      have "0 \<le> k \<and> nat k < length (m_packed ?p') \<and> slot_of (m_packed ?p' ! nat k) = s"
      proof (cases "s = ?s")
        case True
        then have "k = int ?n" using a by (simp add: e2)
        then show ?thesis using True by simp
      next
        case False
        then have "sparse_entry ?sp1 s = Some k" using a by (simp add: e2)
        then have "sparse_entry ?sp s = Some k" using a(2) by (auto simp: e1 split: if_splits)
        then have "0 \<le> k \<and> nat k < ?n \<and> slot_of (m_packed p ! nat k) = s" using s2d a(2) by blast
        then show ?thesis by (simp add: nth_append)
      qed
      then show "0 \<le> k" "nat k < length (m_packed ?p')" "slot_of (m_packed ?p' ! nat k) = s" by auto
    qed
  qed
  with eq show ?thesis by blast
qed


lemma Pool_Remove_absent: "\<not> Pool_Has p eid \<Longrightarrow> Pool_Remove p eid = Inr p"
  by (simp add: Pool_Remove_def)

lemma Pool_Remove_last:
  assumes "Pool_Has p eid"
    and "sparse_read (m_sparse p) (unat (GetEntityIndex eid) div PAGE_SIZE)
           (unat (GetEntityIndex eid) mod PAGE_SIZE) = Some k"
    and "int_cast (length (m_data p)) - 1 = k"
    and "m_data p \<noteq> []" "m_packed p \<noteq> []"
  shows "Pool_Remove p eid = Inr \<lparr>m_data = butlast (m_data p), m_packed = butlast (m_packed p),
            m_sparse = sparse_write (m_sparse p) (unat (GetEntityIndex eid) div PAGE_SIZE)
                         (unat (GetEntityIndex eid) mod PAGE_SIZE) (-1)\<rparr>"
  unfolding Pool_Remove_def Let_def using assms by simp

lemma Pool_Remove_swap:
  assumes "Pool_Has p eid"
    and "sparse_read (m_sparse p) (unat (GetEntityIndex eid) div PAGE_SIZE)
           (unat (GetEntityIndex eid) mod PAGE_SIZE) = Some (int j)"
    and "int_cast (length (m_data p)) - 1 = int l"
    and "j \<noteq> l"
    and "l < length (m_packed p)" "l < length (m_data p)"
    and "j < length (m_packed p)" "j < length (m_data p)"
    and "sparse_read (m_sparse p) (unat (GetEntityIndex (m_packed p ! l)) div PAGE_SIZE)
           (unat (GetEntityIndex (m_packed p ! l)) mod PAGE_SIZE) = Some y"
  shows "Pool_Remove p eid = Inr \<lparr>m_data = butlast ((m_data p)[j := m_data p ! l]),
            m_packed = butlast ((m_packed p)[j := m_packed p ! l]),
            m_sparse = sparse_write
                         (sparse_write (m_sparse p) (unat (GetEntityIndex (m_packed p ! l)) div PAGE_SIZE)
                            (unat (GetEntityIndex (m_packed p ! l)) mod PAGE_SIZE) (int j))
                         (unat (GetEntityIndex eid) div PAGE_SIZE)
                         (unat (GetEntityIndex eid) mod PAGE_SIZE) (-1)\<rparr>"
proof -
  have "m_data p \<noteq> []" "m_packed p \<noteq> []" using assms(5,6) by auto
  then show ?thesis
    unfolding Pool_Remove_def Let_def using assms by simp
qed

lemma Pool_Remove_inv:
  assumes inv: "pool_inv p"
  shows "\<exists>p'. Pool_Remove p eid = Inr p' \<and> pool_inv p'"
proof (cases "Pool_Has p eid")
  case False
  then show ?thesis using inv by (simp add: Pool_Remove_absent)
next
  case True
  let ?s = "slot_of eid"
  let ?n = "length (m_packed p)"
  let ?sp = "m_sparse p"
  have ld: "length (m_data p) = ?n" and wf: "pages_wf ?sp"
    and d2s: "\<forall>i < ?n. sparse_entry ?sp (slot_of (m_packed p ! i)) = Some (int i)"
    and s2d: "\<forall>s k. sparse_entry ?sp s = Some k \<longrightarrow> k \<noteq> -1 \<longrightarrow>
        0 \<le> k \<and> nat k < ?n \<and> slot_of (m_packed p ! nat k) = s"
    and lsp: "length ?sp = MAX_ENTITIES div PAGE_SIZE + 1"
    using inv by (auto simp: pool_inv_def)
  from True obtain k where k: "sparse_entry ?sp ?s = Some k" "k \<noteq> -1"
    by (auto simp: Pool_Has_entry)
  with s2d have k0: "0 \<le> k" and kn: "nat k < ?n" and ks: "slot_of (m_packed p ! nat k) = ?s"
    by blast+
  define j where "j = nat k"
  define l where "l = ?n - 1"
  have kj: "k = int j" using k0 by (simp add: j_def)
  have jn: "j < ?n" using kn by (simp add: j_def)
  have js: "slot_of (m_packed p ! j) = ?s" using ks by (simp add: j_def)
  have ln: "l < ?n" and sl: "?n = Suc l" using jn by (auto simp: l_def)
  have lb: "length (butlast (m_packed p)) = l" by (simp add: l_def)
  have nz: "m_packed p \<noteq> []" "m_data p \<noteq> []" using sl ld by auto
  have cast: "int_cast (length (m_data p)) - 1 = int l"
    using pool_inv_int_cast(1)[OF inv] ld sl by simp
  have ej: "sparse_entry ?sp ?s = Some (int j)" using k(1) kj by simp
  have rd: "sparse_read ?sp (unat (GetEntityIndex eid) div PAGE_SIZE) (unat (GetEntityIndex eid) mod PAGE_SIZE) = Some (int j)"
    using ej by (simp add: sparse_entry_def slot_of_def)
  define X where "X = m_packed p ! l"
  define sX where "sX = slot_of X"
  have eX: "sparse_entry ?sp sX = Some (int l)" using d2s ln by (simp add: sX_def X_def)
  have rdX: "sparse_read ?sp (unat (GetEntityIndex (m_packed p ! l)) div PAGE_SIZE)
               (unat (GetEntityIndex (m_packed p ! l)) mod PAGE_SIZE) = Some (int l)"
    using eX by (simp add: sparse_entry_def slot_of_def sX_def X_def)
  show ?thesis
  proof (cases "j = l")
    case last: True
    define sp' where "sp' = sparse_write ?sp (?s div PAGE_SIZE) (?s mod PAGE_SIZE) (-1)"
    define p' where "p' = \<lparr>m_data = butlast (m_data p), m_packed = butlast (m_packed p), m_sparse = sp'\<rparr>"
    have eq: "Pool_Remove p eid = Inr p'"
      using Pool_Remove_last[OF True rd _ nz(2,1)] cast last
      by (simp add: slot_of_def p'_def sp'_def)
    have e': "\<And>t. sparse_entry sp' t = (if t = ?s then Some (-1) else sparse_entry ?sp t)"
      unfolding sp'_def using sparse_entry_write[OF wf, of ?s] ej by simp
    have sel: "m_packed p' = butlast (m_packed p)" "m_data p' = butlast (m_data p)" "m_sparse p' = sp'"
      by (simp_all add: p'_def)
    have "pool_inv p'"
      unfolding pool_inv_def sel
    proof (intro conjI allI impI)
      show "length (butlast (m_data p)) = length (butlast (m_packed p))" using ld by simp
      show "length sp' = MAX_ENTITIES div PAGE_SIZE + 1" using lsp by (simp add: sp'_def)
      show "pages_wf sp'" using wf by (simp add: pages_wf_write sp'_def)
    next
      fix i assume "i < length (butlast (m_packed p))"
      then have i: "i < l" by (simp add: l_def)
      then have old: "sparse_entry ?sp (slot_of (m_packed p ! i)) = Some (int i)" using d2s ln by simp
      have "slot_of (m_packed p ! i) \<noteq> ?s" using old ej last i by auto
      then show "sparse_entry sp' (slot_of (butlast (m_packed p) ! i)) = Some (int i)"
        using old i lb by (simp add: e' nth_butlast)
    next
      fix s q assume a: "sparse_entry sp' s = Some q" "q \<noteq> -1"
      have ns: "s \<noteq> ?s" using a by (auto simp: e')
      then have "sparse_entry ?sp s = Some q" using a by (simp add: e')
      with s2d a(2) have q: "0 \<le> q" "nat q < ?n" "slot_of (m_packed p ! nat q) = s" by blast+
      have "nat q \<noteq> l" using q(3) ns js last by auto
      with q(2) sl have lt: "nat q < l" by simp
      show "0 \<le> q" by fact
      show "nat q < length (butlast (m_packed p))" using lt lb by simp
      show "slot_of (butlast (m_packed p) ! nat q) = s" using lt q(3) lb by (simp add: nth_butlast)
    qed
    with eq show ?thesis by blast
  next
    case notlast: False
    have jl: "j < l" using jn notlast sl by simp
    have sne: "sX \<noteq> ?s" using eX ej notlast by auto
    define sp1 where "sp1 = sparse_write ?sp (sX div PAGE_SIZE) (sX mod PAGE_SIZE) (int j)"
    define sp' where "sp' = sparse_write sp1 (?s div PAGE_SIZE) (?s mod PAGE_SIZE) (-1)"
    define pk' where "pk' = butlast ((m_packed p)[j := X])"
    define p' where "p' = \<lparr>m_data = butlast ((m_data p)[j := m_data p ! l]),
                m_packed = pk', m_sparse = sp'\<rparr>"
    have jd: "j < length (m_data p)" and ldl: "l < length (m_data p)"
      using jn ld ln by auto
    have eq: "Pool_Remove p eid = Inr p'"
      using Pool_Remove_swap[OF True rd cast notlast ln ldl jn jd rdX]
      by (simp add: slot_of_def p'_def sp'_def sp1_def sX_def X_def pk'_def)
    have e1: "\<And>t. sparse_entry sp1 t = (if t = sX then Some (int j) else sparse_entry ?sp t)"
      unfolding sp1_def using sparse_entry_write[OF wf, of sX] eX by simp
    have wf1: "pages_wf sp1" unfolding sp1_def using wf by (rule pages_wf_write)
    have "sparse_entry sp1 ?s \<noteq> None" using ej sne by (simp add: e1)
    from sparse_entry_write[OF wf1 this]
    have e': "\<And>t. sparse_entry sp' t =
                 (if t = ?s then Some (-1) else if t = sX then Some (int j) else sparse_entry ?sp t)"
      by (simp add: e1 sp'_def)
    have lpk: "length pk' = l" by (simp add: pk'_def l_def)
    have npk: "\<And>i. i < l \<Longrightarrow> pk' ! i = (if i = j then X else m_packed p ! i)"
      using ln by (simp add: pk'_def nth_butlast l_def nth_list_update)
    have sel: "m_packed p' = pk'" "m_sparse p' = sp'"
       "m_data p' = butlast ((m_data p)[j := m_data p ! l])"
      by (simp_all add: p'_def)
    have "pool_inv p'"
      unfolding pool_inv_def sel
    proof (intro conjI allI impI)
      show "length (butlast ((m_data p)[j := m_data p ! l])) = length pk'" using ld lpk by (simp add: l_def)
      show "length sp' = MAX_ENTITIES div PAGE_SIZE + 1" using lsp by (simp add: sp'_def sp1_def)
      show "pages_wf sp'" using wf1 by (simp add: pages_wf_write sp'_def)
    next
      fix i assume "i < length pk'"
      then have i: "i < l" by (simp add: lpk)
      show "sparse_entry sp' (slot_of (pk' ! i)) = Some (int i)"
      proof (cases "i = j")
        case True
        then show ?thesis using i sne by (simp add: e' npk sX_def[symmetric])
      next
        case False
        have old: "sparse_entry ?sp (slot_of (m_packed p ! i)) = Some (int i)" using d2s i ln by simp
        have "slot_of (m_packed p ! i) \<noteq> ?s" using old ej False by auto
        moreover have "slot_of (m_packed p ! i) \<noteq> sX" using old eX i by auto
        ultimately show ?thesis using old i False by (simp add: e' npk)
      qed
    next
      fix s q assume a: "sparse_entry sp' s = Some q" "q \<noteq> -1"
      have ns: "s \<noteq> ?s" using a by (auto simp: e')
      have "0 \<le> q \<and> nat q < length pk' \<and> slot_of (pk' ! nat q) = s"
      proof (cases "s = sX")
        case True
        then have "q = int j" using a ns by (simp add: e')
        then show ?thesis using True jl by (simp add: npk lpk sX_def)
      next
        case False
        then have "sparse_entry ?sp s = Some q" using a ns by (simp add: e')
        with s2d a(2) have q: "0 \<le> q" "nat q < ?n" "slot_of (m_packed p ! nat q) = s" by blast+
        have "nat q \<noteq> l" using q(3) False by (auto simp: sX_def X_def)
        moreover have "nat q \<noteq> j" using q(3) ns js by auto
        ultimately show ?thesis using q sl by (simp add: npk lpk)
      qed
      then show "0 \<le> q" "nat q < length pk'" "slot_of (pk' ! nat q) = s" by auto
    qed
    with eq show ?thesis by blast
  qed
qed

lemma pool_inv_packing: "pool_inv p \<Longrightarrow> packing_invariant p"
  unfolding pool_inv_def packing_invariant_def list_all_length
  by auto

lemma Pool_apply_inv:
  assumes "pool_inv p"
    and "case x of OpAdd eid v \<Rightarrow> \<not> Pool_Has p eid | OpRemove eid \<Rightarrow> True"
  shows "Pool_apply p x = Inl AssertionFailed \<or> (\<exists>p'. Pool_apply p x = Inr p' \<and> pool_inv p')"
proof (cases x)
  case (OpAdd eid v)
  then show ?thesis using assms Pool_Add_inv[of p eid v] by simp
next
  case (OpRemove eid)
  then show ?thesis using assms(1) Pool_Remove_inv[of p eid] by simp
qed

lemma Pool_run_inv:
  "pool_inv p \<Longrightarrow> adds_fresh p ops \<Longrightarrow>
     (case Pool_run p ops of Inl err \<Rightarrow> err = AssertionFailed | Inr p' \<Rightarrow> pool_inv p')"
proof (induction ops arbitrary: p)
  case Nil
  then show ?case by simp
next
  case (Cons x xs)
  from Cons.prems have fr: "case x of OpAdd eid v \<Rightarrow> \<not> Pool_Has p eid | OpRemove eid \<Rightarrow> True"
    by simp
  from Pool_apply_inv[OF Cons.prems(1) fr] show ?case
  proof
    assume "Pool_apply p x = Inl AssertionFailed"
    then show ?thesis by simp
  next
    assume "\<exists>p'. Pool_apply p x = Inr p' \<and> pool_inv p'"
    then obtain p' where p': "Pool_apply p x = Inr p'" "pool_inv p'" by blast
    with Cons.prems have "adds_fresh p' xs" by simp
    from Cons.IH[OF p'(2) this] p'(1) show ?thesis by simp
  qed
qed

lemmas slot_simps = GetEntityIndex_def ENTITY_INDEX_MASK_def PAGE_SIZE_def MAX_ENTITIES_def

lemma run_ok: "Pool_run Pool_init ops_ok = Inr pool_ok"
  unfolding ops_ok_def pool_ok_def
  by (simp add: pool_defs slot_simps Let_def list_update_swap[of 5 7])

lemma fresh_ok: "adds_fresh (Pool_init :: nat Pool) ops_ok"
  unfolding ops_ok_def
  by (simp add: pool_defs slot_simps Let_def)

text \<open>
  Claim C2, as amended. For every sequence of \<open>Pool::Add\<close> and \<open>Pool::Remove\<close> calls on
  a newly constructed pool in which \<open>Add\<close> is only called for an entity the pool does not
  hold at that moment: the sequence either stops at the capacity assertion of \<open>Add\<close> or
  leaves a pool in which the dense value array and the dense entity array have equal
  length, the sparse entry of the slot of \<open>m_packed[i]\<close> is \<open>i\<close> for every dense
  position (so \<open>dense_entity[sparse[slot(id)]] == id\<close> for every entry), and every
  sparse entry that is not \<open>-1\<close> points at an entry of that slot; no call reads outside
  an array. On every pool, \<open>Remove\<close> of an entity whose sparse entry is absent returns
  the pool unchanged.
\<close>

theorem pool_packing_invariant:
  "adds_fresh Pool_init ops \<Longrightarrow>
     (case Pool_run Pool_init ops of
        Inl err \<Rightarrow> err = AssertionFailed
      | Inr p \<Rightarrow> pool_inv p \<and> packing_invariant p)
     \<and> (\<not> Pool_Has q eid \<longrightarrow> Pool_Remove q eid = Inr q)"
proof -
  assume fresh: "adds_fresh Pool_init ops"
  have "case Pool_run Pool_init ops of Inl err \<Rightarrow> err = AssertionFailed | Inr p \<Rightarrow> pool_inv p"
    using Pool_run_inv[OF pool_inv_init fresh] .
  then have "case Pool_run Pool_init ops of
        Inl err \<Rightarrow> err = AssertionFailed
      | Inr p \<Rightarrow> pool_inv p \<and> packing_invariant p"
    by (auto split: sum.splits intro: pool_inv_packing)
  then show ?thesis by (simp add: Pool_Remove_absent)
qed

text \<open>The theorem at the sequence \<open>ops_ok\<close>, which adds two entities, removes and
  re-adds the first, and removes an absent one.\<close>

theorem pool_packing_invariant_witness:
  "adds_fresh Pool_init ops_ok \<and> Pool_run Pool_init ops_ok = Inr pool_ok
     \<and> pool_inv pool_ok \<and> packing_invariant pool_ok
     \<and> \<not> Pool_Has pool_ok 9 \<and> Pool_Remove pool_ok 9 = Inr pool_ok"
proof -
  have nh: "\<not> Pool_Has pool_ok 9"
    by (simp add: pool_ok_def Pool_Has_def sparse_read_def slot_simps)
  from pool_packing_invariant[OF fresh_ok, of pool_ok 9] run_ok nh fresh_ok
  show ?thesis by simp
qed

text \<open>
  Claim C2 as stated fails: \<open>Add\<close> appends without looking at the sparse entry, so
  adding entity 5 twice and removing it once leaves the first entry in the dense arrays
  while the sparse entry of slot 5 is \<open>-1\<close>: the round trip of that entry fails.
\<close>

theorem pool_packing_invariant_counterexample:
  "Pool_run Pool_init ops_double_add = Inr pool_double_add
     \<and> \<not> packing_invariant pool_double_add
     \<and> m_packed pool_double_add = [5] \<and> \<not> Pool_Has pool_double_add 5"
proof -
  have run: "Pool_run Pool_init ops_double_add = Inr pool_double_add"
    unfolding ops_double_add_def pool_double_add_def
    by (simp add: pool_defs slot_simps Let_def)
  have e: "sparse_entry (m_sparse pool_double_add) (slot_of 5) = Some (-1)"
    by (simp add: pool_double_add_def sparse_entry_def sparse_read_def slot_of_def slot_simps)
  have "\<not> packing_invariant pool_double_add"
    using e by (simp add: packing_invariant_def pool_double_add_def)
  moreover have "\<not> Pool_Has pool_double_add 5"
    by (simp add: pool_double_add_def Pool_Has_def sparse_read_def slot_simps)
  ultimately show ?thesis using run by (simp add: pool_double_add_def)
qed

section \<open>The capacity assertion of \<open>Pool::Add\<close>\<close>

lemma Pool_Add_assert_iff:
  "Pool_Add p eid v = Inl AssertionFailed \<longleftrightarrow>
     length (m_sparse p) \<le> slot_of eid div PAGE_SIZE \<and> MAX_ENTITIES \<le> slot_of eid"
  by (auto simp: Pool_Add_def Let_def slot_of_def)

lemma Pool_Add_error: "Pool_Add p eid v = Inl err \<Longrightarrow> err = AssertionFailed"
  by (auto simp: Pool_Add_def Let_def split: if_splits)

lemma Pool_Add_below_MAX_ENTITIES:
  assumes "length (m_sparse p) = MAX_ENTITIES div PAGE_SIZE + 1" "slot_of eid < MAX_ENTITIES"
  shows "\<exists>p'. Pool_Add p eid v = Inr p'"
  using assms by (simp add: Pool_Add_def Let_def slot_of_def)

lemma Pool_Add_init_assert_iff:
  "Pool_Add Pool_init eid v = Inl AssertionFailed \<longleftrightarrow> 1003520 \<le> slot_of eid"
proof -
  have "245 \<le> slot_of eid div 4096 \<longleftrightarrow> 1003520 \<le> slot_of eid" by linarith
  then show ?thesis
    by (auto simp: Pool_Add_assert_iff Pool_init_def MAX_ENTITIES_def PAGE_SIZE_def)
qed

text \<open>
  Claim C5. The claim says that \<open>Add\<close> fails its assertion for every slot index from
  \<open>MAX_ENTITIES\<close> on. The assertion is only evaluated when the page is outside the sparse
  vector, which the constructor sizes to whole pages: on a newly constructed pool,
  \<open>Add\<close> for the slot index 1000000 (\<open>= MAX_ENTITIES\<close>) succeeds, and the pool then
  has the entity.
\<close>

theorem Pool_Add_at_MAX_ENTITIES_succeeds:
  "MAX_ENTITIES \<le> unat (GetEntityIndex 1000000)
     \<and> Pool_Add (Pool_init :: nat Pool) 1000000 7 =
         Inr \<lparr>m_data = [7], m_packed = [1000000],
              m_sparse = (replicate 245 None)[244 := Some ((replicate 4096 (-1))[576 := 0])]\<rparr>
     \<and> Pool_Has \<lparr>m_data = [7::nat], m_packed = [1000000],
              m_sparse = (replicate 245 None)[244 := Some ((replicate 4096 (-1))[576 := 0])]\<rparr> 1000000"
  by (simp add: pool_defs slot_simps Let_def)


section \<open>Entity lifecycle\<close>

lemma create_first: "CreateEntity (Registry_init :: nat Registry) = Inr (e0, reg_created)"
  by (simp add: registry_defs index_defs entity_defs e0_def reg_created_def Let_def)

text \<open>
  Claim C8. \<open>KillEntity\<close> on an invalid handle returns the registry unchanged, the
  pending-destroy set included, and has no error result; a handle is invalid exactly when
  its slot index is outside the version table or its generation differs from the table's.
  On a valid handle the only change is that the handle is inserted into the
  pending-destroy set.
\<close>

theorem KillEntity_invalid_noop:
  "(\<not> IsValid r e \<longrightarrow> KillEntity r e = r)
   \<and> (IsValid r e \<longrightarrow>
        KillEntity r e = r\<lparr>m_entitiesToBeKilled := set_insert e (m_entitiesToBeKilled r)\<rparr>
        \<and> list_ex (\<lambda>x. Entity_eq x e) (m_entitiesToBeKilled (KillEntity r e)))
   \<and> (IsValid r e \<longleftrightarrow>
        unat (GetEntityIndex (GetId e)) < length (m_entityVersions r)
        \<and> m_entityVersions r ! unat (GetEntityIndex (GetId e)) = GetEntityVersion (GetId e))"
proof -
  have mem: "list_ex (\<lambda>x. Entity_eq x e) (set_insert e xs)" for xs
  proof (induction xs)
    case Nil
    show ?case by (simp add: Entity_eq_def)
  next
    case (Cons x xs)
    then show ?case
      by (auto simp: Entity_eq_def Entity_less_def GetId_def)
  qed
  show ?thesis
    using mem by (auto simp: KillEntity_def IsValid_def Let_def)
qed

text \<open>The theorem at a stale handle, at a handle whose slot is outside the version
  table, and at a valid handle.\<close>

theorem KillEntity_invalid_noop_witness:
  "\<not> IsValid reg_created e0_gen1 \<and> KillEntity reg_created e0_gen1 = reg_created
   \<and> \<not> IsValid reg_created e5 \<and> KillEntity reg_created e5 = reg_created
   \<and> IsValid reg_created e0
   \<and> KillEntity reg_created e0 = reg_created\<lparr>m_entitiesToBeKilled := [e0]\<rparr>"
proof -
  have v1: "\<not> IsValid reg_created e0_gen1"
    by (simp add: IsValid_def reg_created_def e0_gen1_def index_defs entity_defs Registry_init_def)
  have v5: "\<not> IsValid reg_created e5"
    by (simp add: IsValid_def reg_created_def e5_def index_defs entity_defs Registry_init_def)
  have v0: "IsValid reg_created e0"
    by (simp add: IsValid_def reg_created_def e0_def index_defs entity_defs Registry_init_def)
  have k: "m_entitiesToBeKilled reg_created = []"
    by (simp add: reg_created_def Registry_init_def)
  from KillEntity_invalid_noop[of reg_created e0_gen1] KillEntity_invalid_noop[of reg_created e5]
    KillEntity_invalid_noop[of reg_created e0] v1 v5 v0 k
  show ?thesis by simp
qed

section \<open>System membership is not touched by component operations\<close>

lemma sys0_requires: "RequireComponent \<lparr>m_componentSignature = 0, m_entities = []\<rparr> 0 = Inr sys0"
  by (simp add: RequireComponent_def bitset_set_def MAX_COMPONENTS_def sys0_def)

lemma reg_sys_visible_reached:
  "\<exists>r1. CreateEntity (AddSystem (Registry_init :: nat Registry) 0 sys0) = Inr (e0, r1)
        \<and> Update r1 = Inr reg_sys_visible"
  by (simp add: registry_defs AddSystem_def index_defs entity_defs e0_def reg_sys_visible_def sys0_def Let_def)














section \<open>Tags and recycled handles\<close>

text \<open>
  Claim C7. The claim says that after tagging an entity \<open>a\<close> and then \<open>b\<close> the lookup
  of \<open>a\<close> no longer resolves to the entity. \<open>TagEntity\<close> overwrites the entity's tag but
  does not erase the old entry of \<open>m_tagToEntity\<close>: the lookup of \<open>a\<close> still returns
  the entity, while \<open>EntityHasTag\<close> for \<open>a\<close> is false.
\<close>

theorem TagEntity_retag_keeps_old_lookup:
  "CreateEntity (Registry_init :: nat Registry) = Inr (e0, reg_created)
   \<and> TagEntity reg_created e0 ''a'' = Inr reg_tagged
   \<and> TagEntity reg_tagged e0 ''b'' = Inr reg_retagged
   \<and> EntityHasTag reg_retagged e0 ''b''
   \<and> \<not> EntityHasTag reg_retagged e0 ''a''
   \<and> m_tagToEntity reg_retagged (HashString ''a'') = Some (GetId e0)
   \<and> GetEntityByTag reg_retagged ''a'' = e0"
proof -
  have ne: "HashString ''a'' \<noteq> HashString ''b''"
    by (simp add: HashString_def)
  have t: "TagEntity reg_created e0 ''a'' = Inr reg_tagged"
    "TagEntity reg_tagged e0 ''b'' = Inr reg_retagged"
    by (simp_all add: TagEntity_def resize_def reg_created_def reg_tagged_def reg_retagged_def
        Registry_init_def e0_def index_defs entity_defs Let_def)
  have h: "EntityHasTag reg_retagged e0 ''b''" "\<not> EntityHasTag reg_retagged e0 ''a''"
    using ne by (simp_all add: EntityHasTag_def reg_retagged_def reg_created_def Registry_init_def
        e0_def index_defs entity_defs Let_def)
  have m: "m_tagToEntity reg_retagged (HashString ''a'') = Some (GetId e0)"
    using ne by (simp add: reg_retagged_def reg_created_def Registry_init_def e0_def GetId_def)
  then have g: "GetEntityByTag reg_retagged ''a'' = e0"
    by (simp add: GetEntityByTag_def e0_def GetId_def)
  show ?thesis using create_first t h m g by simp
qed

lemma HashString_collision: "HashString ''costarring'' = HashString ''liquid''"
  by (simp add: HashString_def)

lemma kill_first: "KillEntity reg_created e0 = reg_created\<lparr>m_entitiesToBeKilled := [e0]\<rparr>"
  by (simp add: registry_defs index_defs entity_defs e0_def reg_created_def Let_def)

lemma update_first: "Update (reg_created\<lparr>m_entitiesToBeKilled := [e0]\<rparr>) = Inr reg_recycled"
  by (simp add: registry_defs index_defs entity_defs e0_def reg_created_def reg_recycled_def Let_def)

lemma create_second: "CreateEntity reg_recycled = Inr (e0_gen1, reg_recreated)"
  by (simp add: registry_defs index_defs entity_defs e0_gen1_def reg_recycled_def reg_recreated_def Let_def)

text \<open>
  Claim C1. The claim includes the handles of recycled slots. \<open>AddComponent\<close> and
  \<open>HasComponent\<close> index the signature table with the full 64-bit id, and the table
  has one entry per slot: for the first recycled handle of a registry (slot 0,
  generation 1, id \<open>2^32\<close>) both read outside the table.
\<close>

theorem AddComponent_recycled_handle_out_of_bounds:
  "CreateEntity (Registry_init :: nat Registry) = Inr (e0, reg_created)
   \<and> Update (KillEntity reg_created e0) = Inr reg_recycled
   \<and> CreateEntity reg_recycled = Inr (e0_gen1, reg_recreated)
   \<and> GetEntityIndex (GetId e0_gen1) = 0 \<and> GetEntityVersion (GetId e0_gen1) = 1
   \<and> IsValid reg_recreated e0_gen1
   \<and> length (m_entityComponentSignatures reg_recreated) = 1
   \<and> unat (GetId e0_gen1) = 4294967296
   \<and> AddComponent reg_recreated 0 e0_gen1 42 = Inl OutOfBounds
   \<and> HasComponent reg_recreated 0 e0_gen1 = Inl OutOfBounds"
proof -
  have a: "AddComponent reg_recreated 0 e0_gen1 42 = Inl OutOfBounds"
    by (simp add: registry_defs index_defs entity_defs const_defs pool_defs e0_gen1_def
        reg_recycled_def reg_recreated_def Let_def)
  have h: "HasComponent reg_recreated 0 e0_gen1 = Inl OutOfBounds"
    by (simp add: registry_defs index_defs entity_defs const_defs e0_gen1_def
        reg_recycled_def reg_recreated_def Let_def)
  have v: "IsValid reg_recreated e0_gen1" "GetEntityIndex (GetId e0_gen1) = 0"
    "GetEntityVersion (GetId e0_gen1) = 1" "unat (GetId e0_gen1) = 4294967296"
    "length (m_entityComponentSignatures reg_recreated) = 1"
    by (simp_all add: registry_defs index_defs entity_defs e0_gen1_def
        reg_recycled_def reg_recreated_def Let_def)
  show ?thesis using create_first kill_first update_first create_second a h v by simp
qed

section \<open>The effect of Update on killed entities\<close>

lemma IsValid_versions: "m_entityVersions r = m_entityVersions r' \<Longrightarrow> IsValid r e = IsValid r' e"
  by (simp add: IsValid_def)

lemma IsValid_iff:
  "IsValid r e \<longleftrightarrow> unat (entity_slot e) < length (m_entityVersions r)
     \<and> m_entityVersions r ! unat (entity_slot e) = GetEntityVersion (GetId e)"
  by (auto simp: IsValid_def entity_slot_def Let_def)

subsection \<open>set_insert\<close>

lemma set_set_insert: "set (set_insert e xs) \<subseteq> insert e (set xs)"
  by (induction xs) auto

lemma set_insert_keeps: "set xs \<subseteq> set (set_insert e xs)"
  by (induction xs) auto

lemma set_insert_has: "\<exists>x \<in> set (set_insert e xs). GetId x = GetId e"
  by (induction xs) (auto simp: Entity_less_def)

lemma sorted_set_insert:
  "sorted_wrt Entity_less xs \<Longrightarrow> sorted_wrt Entity_less (set_insert e xs)"
proof (induction xs)
  case Nil
  then show ?case by simp
next
  case (Cons x xs)
  have tr: "\<And>y. Entity_less e x \<Longrightarrow> Entity_less x y \<Longrightarrow> Entity_less e y"
    by (auto simp: Entity_less_def)
  from Cons show ?case
    using set_set_insert[of e xs] by (auto intro: tr)
qed

lemma set_insert_idem: "set_insert e (set_insert e xs) = set_insert e xs"
  by (induction xs) (auto simp: Entity_less_def)

lemma set_insert_least: "list_all (Entity_less e) xs \<Longrightarrow> sorted_wrt Entity_less xs \<Longrightarrow> set_insert e xs = e # xs"
  by (cases xs) auto

lemma list_all_set_insert: "P e \<Longrightarrow> list_all P xs \<Longrightarrow> list_all P (set_insert e xs)"
  by (induction xs) auto

subsection \<open>KillEntity\<close>

lemma KillEntity_idem: "KillEntity (KillEntity r e) e = KillEntity r e"
  by (simp add: KillEntity_def IsValid_def set_insert_idem)

lemma KillEntity_funpow: "((\<lambda>s. KillEntity s e) ^^ Suc n) r = KillEntity r e"
  by (induction n) (simp_all add: KillEntity_idem)

lemma IsValid_kill_update [simp]: "IsValid (r\<lparr>m_entitiesToBeKilled := k\<rparr>) = IsValid r"
  by (rule ext) (simp add: IsValid_def)

lemma KillEntity_pending_ok:
  "pending_kills_ok r \<Longrightarrow> pending_kills_ok (KillEntity r e)"
  unfolding pending_kills_ok_def KillEntity_def
  by (auto simp: sorted_set_insert intro: list_all_set_insert)

subsection \<open>Frame lemmas of Update\<close>

lemma AddEntityToSystems_frame:
  "AddEntityToSystems r e = Inr r' \<Longrightarrow> \<exists>s. r' = r\<lparr>m_systems := s\<rparr>"
  by (auto simp: AddEntityToSystems_def Let_def split: if_splits)

lemma add_loop_frame: "add_loop r es = Inr r' \<Longrightarrow> \<exists>s. r' = r\<lparr>m_systems := s\<rparr>"
proof (induction es arbitrary: r)
  case Nil
  then have "r' = r\<lparr>m_systems := m_systems r\<rparr>" by simp
  then show ?case by blast
next
  case (Cons x xs)
  then obtain r1 where r1: "AddEntityToSystems r x = Inr r1" "add_loop r1 xs = Inr r'"
    by (auto split: sum.splits)
  from AddEntityToSystems_frame[OF r1(1)] obtain s where s: "r1 = r\<lparr>m_systems := s\<rparr>" by blast
  from Cons.IH[OF r1(2)] obtain s' where "r' = r1\<lparr>m_systems := s'\<rparr>" by blast
  with s have "r' = r\<lparr>m_systems := s'\<rparr>" by simp
  then show ?case by blast
qed

lemma RemoveEntityTag_frame:
  "m_entityVersions (RemoveEntityTag r e) = m_entityVersions r"
  "m_freeIndices (RemoveEntityTag r e) = m_freeIndices r"
  "m_entitiesToBeKilled (RemoveEntityTag r e) = m_entitiesToBeKilled r"
  "m_entitiesToBeAdded (RemoveEntityTag r e) = m_entitiesToBeAdded r"
  "m_entityGroups (RemoveEntityTag r e) = m_entityGroups r"
  "m_groups (RemoveEntityTag r e) = m_groups r"
  by (simp_all add: RemoveEntityTag_def Let_def)

lemma RemoveEntityGroup_frame:
  assumes "RemoveEntityGroup r e = Inr r'"
  shows "m_entityVersions r' = m_entityVersions r"
    "m_freeIndices r' = m_freeIndices r"
    "m_entitiesToBeKilled r' = m_entitiesToBeKilled r"
    "m_entitiesToBeAdded r' = m_entitiesToBeAdded r"
  using assms by (auto simp: RemoveEntityGroup_def Let_def split: if_splits sum.splits)

lemma kill_one_invalid: "\<not> IsValid r e \<Longrightarrow> kill_one r e = Inr r"
  by (simp add: kill_one_def)

lemma kill_one_frame:
  assumes "kill_one r e = Inr r'" "IsValid r e"
  shows "m_entityVersions r' =
           (m_entityVersions r)[unat (entity_slot e) := m_entityVersions r ! unat (entity_slot e) + 1]"
    and "m_freeIndices r' = m_freeIndices r @ [entity_slot e]"
    and "m_entitiesToBeKilled r' = m_entitiesToBeKilled r"
    and "m_entitiesToBeAdded r' = m_entitiesToBeAdded r"
proof -
  let ?i = "unat (entity_slot e)"
  let ?r1 = "RemoveEntityFromSystems r e"
  let ?r2 = "?r1\<lparr>m_entityComponentSignatures := (m_entityComponentSignatures ?r1)[?i := 0]\<rparr>"
  from assms obtain pools' r5 where
    p: "remove_from_pools (m_componentPools ?r2) (GetId e) = Inr pools'"
    and g: "RemoveEntityGroup (RemoveEntityTag (?r2\<lparr>m_componentPools := pools'\<rparr>) e) e = Inr r5"
    and r': "r' = r5\<lparr>m_entityVersions := (m_entityVersions r5)[?i := m_entityVersions r5 ! ?i + 1],
                     m_freeIndices := m_freeIndices r5 @ [entity_slot e]\<rparr>"
    by (auto simp: kill_one_def Let_def entity_slot_def split: if_splits sum.splits)
  have f: "m_entityVersions r5 = m_entityVersions r" "m_freeIndices r5 = m_freeIndices r"
    "m_entitiesToBeKilled r5 = m_entitiesToBeKilled r" "m_entitiesToBeAdded r5 = m_entitiesToBeAdded r"
    using RemoveEntityGroup_frame[OF g]
    by (simp_all add: RemoveEntityTag_frame RemoveEntityFromSystems_def)
  show "m_entityVersions r' = (m_entityVersions r)[?i := m_entityVersions r ! ?i + 1]"
    and "m_freeIndices r' = m_freeIndices r @ [entity_slot e]"
    and "m_entitiesToBeKilled r' = m_entitiesToBeKilled r"
    and "m_entitiesToBeAdded r' = m_entitiesToBeAdded r"
    using r' f by simp_all
qed

lemma valid_distinct_slots:
  "sorted_wrt Entity_less es \<Longrightarrow> list_all (IsValid r) es \<Longrightarrow> distinct (map entity_slot es)"
proof (induction es)
  case Nil
  then show ?case by simp
next
  case (Cons x xs)
  have "entity_slot x \<notin> entity_slot ` set xs"
  proof
    assume "entity_slot x \<in> entity_slot ` set xs"
    then obtain y where y: "y \<in> set xs" "entity_slot y = entity_slot x" by auto
    from Cons.prems y(1) have vx: "IsValid r x" and vy: "IsValid r y" and lt: "Entity_less x y"
      by (auto simp: list_all_iff)
    from vx vy y(2) have "GetEntityVersion (GetId x) = GetEntityVersion (GetId y)"
      by (simp add: IsValid_iff)
    with y(2) have "GetId x = GetId y"
      by (auto intro: EntityID_eqI simp: entity_slot_def)
    with lt show False by (simp add: Entity_less_def)
  qed
  with Cons show ?case by simp
qed

lemma kill_loop_effect:
  assumes "kill_loop r es = Inr r'"
    and "list_all (IsValid r) es"
    and "distinct (map entity_slot es)"
  shows "m_freeIndices r' = m_freeIndices r @ map entity_slot es
       \<and> length (m_entityVersions r') = length (m_entityVersions r)
       \<and> (\<forall>i < length (m_entityVersions r). m_entityVersions r' ! i =
            (if i \<in> (\<lambda>x. unat (entity_slot x)) ` set es then m_entityVersions r ! i + 1
             else m_entityVersions r ! i))
       \<and> m_entitiesToBeKilled r' = m_entitiesToBeKilled r
       \<and> m_entitiesToBeAdded r' = m_entitiesToBeAdded r"
  using assms
proof (induction es arbitrary: r)
  case Nil
  then show ?case by simp
next
  case (Cons x xs)
  from Cons.prems(1) obtain r1 where r1: "kill_one r x = Inr r1" "kill_loop r1 xs = Inr r'"
    by (auto split: sum.splits)
  from Cons.prems(2) have vx: "IsValid r x" by simp
  note f = kill_one_frame[OF r1(1) vx]
  let ?ix = "unat (entity_slot x)"
  have ixl: "?ix < length (m_entityVersions r)" using vx by (simp add: IsValid_iff)
  have nin: "?ix \<notin> (\<lambda>y. unat (entity_slot y)) ` set xs"
    using Cons.prems(3) by (auto simp: word_unat_eq_iff[symmetric])
  have vxs: "list_all (IsValid r1) xs"
    unfolding list_all_iff
  proof
    fix y assume y: "y \<in> set xs"
    then have vy: "IsValid r y" using Cons.prems(2) by (simp add: list_all_iff)
    have "unat (entity_slot y) \<noteq> ?ix" using nin y by (metis image_eqI)
    then show "IsValid r1 y" using vy by (simp add: IsValid_iff f(1))
  qed
  have d: "distinct (map entity_slot xs)" using Cons.prems(3) by simp
  from Cons.IH[OF r1(2) vxs d]
  have ih: "m_freeIndices r' = m_freeIndices r1 @ map entity_slot xs"
    "length (m_entityVersions r') = length (m_entityVersions r1)"
    "\<forall>i < length (m_entityVersions r1). m_entityVersions r' ! i =
            (if i \<in> (\<lambda>x. unat (entity_slot x)) ` set xs then m_entityVersions r1 ! i + 1
             else m_entityVersions r1 ! i)"
    "m_entitiesToBeKilled r' = m_entitiesToBeKilled r1"
    "m_entitiesToBeAdded r' = m_entitiesToBeAdded r1"
    by blast+
  have "\<forall>i < length (m_entityVersions r). m_entityVersions r' ! i =
            (if i \<in> (\<lambda>x. unat (entity_slot x)) ` set (x # xs) then m_entityVersions r ! i + 1
             else m_entityVersions r ! i)"
  proof (intro allI impI)
    fix i assume i: "i < length (m_entityVersions r)"
    then have "m_entityVersions r' ! i =
            (if i \<in> (\<lambda>x. unat (entity_slot x)) ` set xs then m_entityVersions r1 ! i + 1
             else m_entityVersions r1 ! i)" using ih(3) by (simp add: f(1))
    moreover have "m_entityVersions r1 ! i =
            (if i = ?ix then m_entityVersions r ! i + 1 else m_entityVersions r ! i)"
      using i by (simp add: f(1) nth_list_update)
    moreover have "i = ?ix \<Longrightarrow> i \<notin> (\<lambda>x. unat (entity_slot x)) ` set xs"
      using nin by simp
    ultimately show "m_entityVersions r' ! i =
            (if i \<in> (\<lambda>x. unat (entity_slot x)) ` set (x # xs) then m_entityVersions r ! i + 1
             else m_entityVersions r ! i)"
      by (cases "i = ?ix") auto
  qed
  then show ?case using ih f by simp
qed

lemma Update_effect:
  assumes "Update r = Inr r'" "pending_kills_ok r"
  shows "m_freeIndices r' = m_freeIndices r @ map entity_slot (m_entitiesToBeKilled r)"
    and "length (m_entityVersions r') = length (m_entityVersions r)"
    and "\<forall>i < length (m_entityVersions r). m_entityVersions r' ! i =
            (if i \<in> (\<lambda>x. unat (entity_slot x)) ` set (m_entitiesToBeKilled r)
             then m_entityVersions r ! i + 1 else m_entityVersions r ! i)"
    and "m_entitiesToBeKilled r' = []"
    and "m_entitiesToBeAdded r' = []"
proof -
  from assms(1) obtain r1 r3 where
    a: "add_loop r (m_entitiesToBeAdded r) = Inr r1"
    and k: "kill_loop (r1\<lparr>m_entitiesToBeAdded := []\<rparr>)
              (m_entitiesToBeKilled (r1\<lparr>m_entitiesToBeAdded := []\<rparr>)) = Inr r3"
    and r': "r' = r3\<lparr>m_entitiesToBeKilled := []\<rparr>"
    by (auto simp: Update_def Let_def split: sum.splits)
  from add_loop_frame[OF a] obtain s where s: "r1 = r\<lparr>m_systems := s\<rparr>" by blast
  let ?r2 = "r1\<lparr>m_entitiesToBeAdded := []\<rparr>"
  have v2: "m_entityVersions ?r2 = m_entityVersions r" and k2: "m_entitiesToBeKilled ?r2 = m_entitiesToBeKilled r"
    and f2: "m_freeIndices ?r2 = m_freeIndices r"
    using s by simp_all
  have val: "list_all (IsValid ?r2) (m_entitiesToBeKilled r)"
    using assms(2) IsValid_versions[OF v2] by (simp add: pending_kills_ok_def list_all_iff)
  have d: "distinct (map entity_slot (m_entitiesToBeKilled r))"
    using assms(2) valid_distinct_slots by (auto simp: pending_kills_ok_def)
  from kill_loop_effect[OF k[unfolded k2] val d]
  have e: "m_freeIndices r3 = m_freeIndices ?r2 @ map entity_slot (m_entitiesToBeKilled r)"
    "length (m_entityVersions r3) = length (m_entityVersions ?r2)"
    "\<forall>i < length (m_entityVersions ?r2). m_entityVersions r3 ! i =
            (if i \<in> (\<lambda>x. unat (entity_slot x)) ` set (m_entitiesToBeKilled r)
             then m_entityVersions ?r2 ! i + 1 else m_entityVersions ?r2 ! i)"
    "m_entitiesToBeAdded r3 = m_entitiesToBeAdded ?r2"
    by blast+
  show "m_freeIndices r' = m_freeIndices r @ map entity_slot (m_entitiesToBeKilled r)"
    using e(1) r' f2 by simp
  show "length (m_entityVersions r') = length (m_entityVersions r)"
    using e(2) r' v2 by simp
  show "\<forall>i < length (m_entityVersions r). m_entityVersions r' ! i =
            (if i \<in> (\<lambda>x. unat (entity_slot x)) ` set (m_entitiesToBeKilled r)
             then m_entityVersions r ! i + 1 else m_entityVersions r ! i)"
    using e(3) r' v2 by simp
  show "m_entitiesToBeKilled r' = []" using r' by simp
  show "m_entitiesToBeAdded r' = []" using e(4) r' by simp
qed

lemma count_list_distinct: "distinct xs \<Longrightarrow> x \<in> set xs \<Longrightarrow> count_list xs x = 1"
  by (induction xs) auto

lemma Update_after_kill:
  assumes u: "Update (KillEntity r e) = Inr r'" and ok: "pending_kills_ok r" and v: "IsValid r e"
  shows "m_entityVersions r' ! unat (entity_slot e) = m_entityVersions r ! unat (entity_slot e) + 1"
    and "length (m_entityVersions r') = length (m_entityVersions r)"
    and "count_list (m_freeIndices r') (entity_slot e) = count_list (m_freeIndices r) (entity_slot e) + 1"
    and "m_freeIndices r' = m_freeIndices r @ map entity_slot (set_insert e (m_entitiesToBeKilled r))"
    and "m_entitiesToBeKilled r' = []"
proof -
  let ?K = "set_insert e (m_entitiesToBeKilled r)"
  let ?rk = "KillEntity r e"
  have rk: "?rk = r\<lparr>m_entitiesToBeKilled := ?K\<rparr>" using v by (simp add: KillEntity_def)
  have okk: "pending_kills_ok ?rk" using ok by (rule KillEntity_pending_ok)
  have kk: "m_entitiesToBeKilled ?rk = ?K" and vk: "m_entityVersions ?rk = m_entityVersions r"
    and fk: "m_freeIndices ?rk = m_freeIndices r"
    by (simp_all add: rk)
  note eff = Update_effect[OF u okk, unfolded kk vk fk]
  have il: "unat (entity_slot e) < length (m_entityVersions r)" using v by (simp add: IsValid_iff)
  from set_insert_has[of e "m_entitiesToBeKilled r"] obtain x where x: "x \<in> set ?K" "GetId x = GetId e"
    by blast
  then have sx: "entity_slot x = entity_slot e" by (simp add: entity_slot_def)
  have mem: "unat (entity_slot e) \<in> (\<lambda>x. unat (entity_slot x)) ` set ?K"
    using x(1) sx by (metis image_eqI)
  show "m_entityVersions r' ! unat (entity_slot e) = m_entityVersions r ! unat (entity_slot e) + 1"
    using eff(3) il mem by simp
  show "length (m_entityVersions r') = length (m_entityVersions r)" by (rule eff(2))
  show f: "m_freeIndices r' = m_freeIndices r @ map entity_slot ?K" by (rule eff(1))
  have d: "distinct (map entity_slot ?K)"
    using okk valid_distinct_slots[of ?K ?rk] by (simp add: pending_kills_ok_def kk)
  have "entity_slot e \<in> set (map entity_slot ?K)" using x(1) sx by (metis image_eqI set_map)
  with d have "count_list (map entity_slot ?K) (entity_slot e) = 1"
    by (simp add: count_list_distinct)
  then show "count_list (m_freeIndices r') (entity_slot e) = count_list (m_freeIndices r) (entity_slot e) + 1"
    by (simp add: f)
  show "m_entitiesToBeKilled r' = []" by (rule eff(4))
qed

text \<open>
  Claim C9. Calling \<open>KillEntity\<close> on a handle two or more times gives the registry that
  one call gives, hence the same result of \<open>Update\<close>. For a valid handle and a
  pending-destroy set of valid handles, when \<open>Update\<close> returns, the generation of the
  slot is one more than before, the slot index occurs once more in the free-list than
  before, and the pending-destroy set is empty.
\<close>

theorem KillEntity_twice_same_Update:
  "((\<lambda>s. KillEntity s e) ^^ Suc n) r = KillEntity r e
   \<and> Update (((\<lambda>s. KillEntity s e) ^^ Suc n) r) = Update (KillEntity r e)
   \<and> (IsValid r e \<and> pending_kills_ok r \<and> Update (KillEntity r e) = Inr r' \<longrightarrow>
        m_entityVersions r' ! unat (entity_slot e) = m_entityVersions r ! unat (entity_slot e) + 1
        \<and> count_list (m_freeIndices r') (entity_slot e)
            = count_list (m_freeIndices r) (entity_slot e) + 1
        \<and> m_entitiesToBeKilled r' = [])"
proof -
  have a: "((\<lambda>s. KillEntity s e) ^^ Suc n) r = KillEntity r e"
    by (rule KillEntity_funpow)
  then have b: "Update (((\<lambda>s. KillEntity s e) ^^ Suc n) r) = Update (KillEntity r e)"
    by (rule arg_cong)
  have c: "m_entityVersions r' ! unat (entity_slot e) = m_entityVersions r ! unat (entity_slot e) + 1
        \<and> count_list (m_freeIndices r') (entity_slot e)
            = count_list (m_freeIndices r) (entity_slot e) + 1
        \<and> m_entitiesToBeKilled r' = []"
    if "IsValid r e" "pending_kills_ok r" "Update (KillEntity r e) = Inr r'"
    using Update_after_kill[OF that(3,2,1)] by simp
  from a b c show ?thesis by blast
qed

text \<open>The theorem at the first entity of a registry, killed twice.\<close>

theorem KillEntity_twice_same_Update_witness:
  "IsValid reg_created e0 \<and> pending_kills_ok reg_created
   \<and> Update (KillEntity (KillEntity reg_created e0) e0) = Inr reg_recycled
   \<and> Update (KillEntity reg_created e0) = Inr reg_recycled
   \<and> m_entityVersions reg_created ! unat (entity_slot e0) = 0
   \<and> m_entityVersions reg_recycled ! unat (entity_slot e0) = 1
   \<and> count_list (m_freeIndices reg_created) (entity_slot e0) = 0
   \<and> count_list (m_freeIndices reg_recycled) (entity_slot e0) = 1"
proof -
  have v0: "IsValid reg_created e0"
    by (simp add: IsValid_def reg_created_def e0_def index_defs entity_defs Registry_init_def)
  have ok: "pending_kills_ok reg_created"
    by (simp add: pending_kills_ok_def reg_created_def Registry_init_def)
  have u: "Update (KillEntity reg_created e0) = Inr reg_recycled"
    using kill_first update_first by simp
  have s: "unat (entity_slot e0) = 0" "entity_slot e0 = 0"
    by (simp_all add: entity_slot_def e0_def index_defs GetId_def)
  have c: "m_entityVersions reg_created ! 0 = 0" "m_freeIndices reg_created = []"
    by (simp_all add: reg_created_def Registry_init_def)
  from KillEntity_twice_same_Update[where e = e0 and n = "Suc 0" and r = reg_created
      and r' = reg_recycled] v0 ok u s c
  show ?thesis by simp
qed

lemma CreateEntity_result:
  assumes "CreateEntity r = Inr (e, r1)"
  shows "IsValid r1 e"
    and "registry e = this_registry"
    and "m_entitiesToBeKilled r1 = m_entitiesToBeKilled r"
    and "length (m_entityVersions r) \<le> length (m_entityVersions r1)"
    and "\<forall>i < length (m_entityVersions r). m_entityVersions r1 ! i = m_entityVersions r ! i"
    and "m_freeIndices r \<noteq> [] \<Longrightarrow> entity_slot e = hd (m_freeIndices r)"
    and "m_freeIndices r1 = tl (m_freeIndices r)"
proof -
  show "IsValid r1 e"
    using assms
    by (auto simp: CreateEntity_def Let_def IsValid_def GetId_def split: if_splits prod.splits)
  show "registry e = this_registry"
    using assms
    by (auto simp: CreateEntity_def Let_def split: if_splits prod.splits)
  show "m_entitiesToBeKilled r1 = m_entitiesToBeKilled r"
    using assms
    by (auto simp: CreateEntity_def Let_def split: if_splits prod.splits)
  show "length (m_entityVersions r) \<le> length (m_entityVersions r1)"
    using assms
    by (auto simp: CreateEntity_def Let_def resize_def split: if_splits prod.splits)
  show "\<forall>i < length (m_entityVersions r). m_entityVersions r1 ! i = m_entityVersions r ! i"
    using assms
    by (auto simp: CreateEntity_def Let_def resize_def nth_append split: if_splits prod.splits)
  show "m_freeIndices r \<noteq> [] \<Longrightarrow> entity_slot e = hd (m_freeIndices r)"
    using assms
    by (auto simp: CreateEntity_def Let_def entity_slot_def GetId_def split: if_splits prod.splits)
  show "m_freeIndices r1 = tl (m_freeIndices r)"
    using assms
    by (auto simp: CreateEntity_def Let_def split: if_splits prod.splits)
qed

lemma CreateEntity_recycle:
  assumes "m_freeIndices r = i # rest" "unat i < length (m_entityVersions r)"
  shows "CreateEntity r =
           Inr (\<lparr>m_id = CreateEntityId i (m_entityVersions r ! unat i), registry = this_registry\<rparr>,
                r\<lparr>m_freeIndices := rest,
                  m_entitiesToBeAdded :=
                    set_insert \<lparr>m_id = CreateEntityId i (m_entityVersions r ! unat i), registry = this_registry\<rparr>
                      (m_entitiesToBeAdded r)\<rparr>)"
  using assms by (simp add: CreateEntity_def Let_def)

lemma word_succ_neq: "(v :: u32) + 1 \<noteq> v"
  by simp

lemma word_succ_less: "(v :: u32) \<noteq> - 1 \<Longrightarrow> v < v + 1"
  by (metis inc_less_eq_triv_imp linorder_less_linear word_le_less_eq)

lemmas scenario_defs = e0_def e1_def e0_gen1_def e1_gen1_def reg_created_def reg_recycled_def
  reg_recreated_def reg_two_created_def reg_two_free_def reg_two_a_def reg_two_b_def reg_two_c_def

section \<open>View\<close>

lemma drop_hi: "drop_bit 32 ((eid :: 64 word) AND push_bit 32 (mask 32)) = drop_bit 32 eid"
  by (rule bit_word_eqI) (auto simp: bit_simps dest: bit_imp_le_length)

lemma small_drop: "unat (eid :: 64 word) < 2 ^ 32 \<Longrightarrow> drop_bit 32 eid = 0"
proof -
  assume a: "unat eid < 2 ^ 32"
  have "unat (drop_bit 32 eid) = unat eid div 2 ^ 32"
    by (simp add: unat_drop_bit_eq) (simp add: drop_bit_eq_div)
  also have "\<dots> = 0" using a by simp
  finally show ?thesis by (simp add: unat_eq_0)
qed

lemma small_id_generation0: "unat (eid :: EntityID) < 2 ^ 32 \<Longrightarrow> GetEntityVersion eid = 0"
  unfolding GetEntityVersion_def ENTITY_VERSION_MASK_def ENTITY_VERSION_SHIFT_def mask_high
  by (simp add: drop_hi small_drop)

lemma pools_agree_small_ids:
  assumes "list_all (\<lambda>x. unat x < 2 ^ 32) (m_packed pA)" "list_all (\<lambda>y. unat y < 2 ^ 32) (m_packed pB)"
  shows "pools_agree pA pB"
  unfolding pools_agree_def list_all_iff
proof (intro ballI impI)
  fix x y assume "x \<in> set (m_packed pA)" "y \<in> set (m_packed pB)" "slot_of x = slot_of y"
  then have "GetEntityVersion x = GetEntityVersion y" "GetEntityIndex x = GetEntityIndex y"
    using assms by (auto simp: list_all_iff small_id_generation0 slot_of_def word_unat_eq_iff)
  then show "x = y" by (auto intro: EntityID_eqI)
qed

lemma AddComponent_id_in_range:
  "AddComponent r componentId e object = Inr r' \<Longrightarrow>
     unat (GetId e) < length (m_entityComponentSignatures r)"
  by (auto simp: AddComponent_def Let_def split: sum.splits if_splits)

lemma pool_inv_member_Has:
  assumes "pool_inv p" "eid \<in> set (m_packed p)"
  shows "Pool_Has p eid"
proof -
  from assms(2) obtain i where i: "i < length (m_packed p)" "m_packed p ! i = eid"
    by (auto simp: in_set_conv_nth)
  with assms(1) have "sparse_entry (m_sparse p) (slot_of eid) = Some (int i)"
    by (auto simp: pool_inv_def)
  then show ?thesis by (simp add: Pool_Has_entry)
qed

lemma pool_inv_Has_Get:
  assumes "pool_inv p" "Pool_Has p eid"
  shows "\<exists>v. Pool_Get p eid = Inr v"
proof -
  from assms(2) obtain k where k: "sparse_entry (m_sparse p) (slot_of eid) = Some k" "k \<noteq> -1"
    by (auto simp: Pool_Has_entry)
  with assms(1) have "0 \<le> k" "nat k < length (m_data p)"
    by (auto simp: pool_inv_def)
  with k(1) show ?thesis
    by (simp add: Pool_Get_def Let_def sparse_entry_def slot_of_def)
qed

lemma pool_inv_Has_member:
  assumes "pool_inv p" "Pool_Has p eid"
  shows "\<exists>y \<in> set (m_packed p). slot_of y = slot_of eid"
proof -
  from assms(2) obtain k where k: "sparse_entry (m_sparse p) (slot_of eid) = Some k" "k \<noteq> -1"
    by (auto simp: Pool_Has_entry)
  with assms(1) have "nat k < length (m_packed p)" "slot_of (m_packed p ! nat k) = slot_of eid"
    by (auto simp: pool_inv_def)
  then show ?thesis by (metis nth_mem)
qed

lemma pool_inv_distinct:
  assumes "pool_inv p"
  shows "distinct (m_packed p)"
proof -
  have e: "\<forall>i < length (m_packed p). sparse_entry (m_sparse p) (slot_of (m_packed p ! i)) = Some (int i)"
    using assms by (simp add: pool_inv_def)
  show ?thesis
    unfolding distinct_conv_nth
  proof (intro allI impI)
    fix i j assume "i < length (m_packed p)" "j < length (m_packed p)" "i \<noteq> j"
    then show "m_packed p ! i \<noteq> m_packed p ! j"
      using e by (metis of_nat_eq_iff option.inject)
  qed
qed

lemma view_args_ok:
  "list_all (\<lambda>p. \<exists>v. Pool_Get p eid = Inr v) pools \<Longrightarrow>
     view_args pools eid = Inr (map (\<lambda>p. projr (Pool_Get p eid)) pools)"
  by (induction pools) auto

lemma view_loop_ok:
  assumes "list_all pool_inv pools"
  shows "view_loop pools ids =
     Inr (map (\<lambda>eid. (eid, map (\<lambda>p. projr (Pool_Get p eid)) pools))
              (filter (\<lambda>eid. list_all (\<lambda>p. Pool_Has p eid) pools) ids))"
proof (induction ids)
  case Nil
  show ?case by simp
next
  case (Cons eid ids)
  show ?case
  proof (cases "list_all (\<lambda>p. Pool_Has p eid) pools")
    case True
    have "list_all (\<lambda>p. \<exists>v. Pool_Get p eid = Inr v) pools"
      unfolding list_all_iff
    proof
      fix p assume "p \<in> set pools"
      then have "pool_inv p" "Pool_Has p eid" using assms True by (simp_all add: list_all_iff)
      then show "\<exists>v. Pool_Get p eid = Inr v" by (rule pool_inv_Has_Get)
    qed
    from view_args_ok[OF this] True Cons show ?thesis by simp
  next
    case False
    with Cons show ?thesis by simp
  qed
qed

lemma View_pair:
  assumes "GetPool r a = Some pA" "GetPool r b = Some pB" "pool_inv pA" "pool_inv pB"
  shows "View r [a, b] =
     Inr (map (\<lambda>eid. (eid, [projr (Pool_Get pA eid), projr (Pool_Get pB eid)]))
              (filter (\<lambda>eid. Pool_Has pB eid) (m_packed pA)))"
proof -
  have "View r [a, b] = view_loop [pA, pB] (m_packed pA)"
    using assms(1,2) by (simp add: View_def)
  also have "\<dots> = Inr (map (\<lambda>eid. (eid, map (\<lambda>p. projr (Pool_Get p eid)) [pA, pB]))
              (filter (\<lambda>eid. list_all (\<lambda>p. Pool_Has p eid) [pA, pB]) (m_packed pA)))"
    using assms(3,4) by (intro view_loop_ok) simp
  also have "filter (\<lambda>eid. list_all (\<lambda>p. Pool_Has p eid) [pA, pB]) (m_packed pA)
             = filter (\<lambda>eid. Pool_Has pB eid) (m_packed pA)"
    using pool_inv_member_Has[OF assms(3)] by (auto intro: filter_cong)
  finally show ?thesis by simp
qed

lemma agree_Has_member:
  assumes "pool_inv pB" "pools_agree pA pB" "eid \<in> set (m_packed pA)"
  shows "Pool_Has pB eid \<longleftrightarrow> eid \<in> set (m_packed pB)"
proof
  assume "Pool_Has pB eid"
  from pool_inv_Has_member[OF assms(1) this] obtain y where
    y: "y \<in> set (m_packed pB)" "slot_of y = slot_of eid" by blast
  with assms(2,3) have "eid = y" by (auto simp: pools_agree_def list_all_iff)
  with y(1) show "eid \<in> set (m_packed pB)" by simp
next
  assume "eid \<in> set (m_packed pB)"
  then show "Pool_Has pB eid" using assms(1) by (rule pool_inv_member_Has[rotated])
qed

lemma pools_agree_sym: "pools_agree pA pB \<Longrightarrow> pools_agree pB pA"
  unfolding pools_agree_def list_all_iff by (metis (no_types))

lemma count_list_distinct': "distinct xs \<Longrightarrow> count_list xs x = (if x \<in> set xs then 1 else 0)"
  by (induction xs) auto

text \<open>
  Claim C3, as amended. If a listed kind has no pool, \<open>View\<close> calls the callback zero
  times. For a registry in which the pools of kinds \<open>a\<close> and \<open>b\<close> satisfy the packing
  invariant and hold the same identifier for every slot they share: \<open>View<A,B>\<close> and
  \<open>View<B,A>\<close> return without reading outside an array; \<open>View<A,B>\<close> calls the
  callback exactly once for every entity stored in both pools and never for another
  entity; each call passes the entity's component of kind \<open>a\<close> and of kind \<open>b\<close>; and
  the set of calls of \<open>View<B,A>\<close> is that of \<open>View<A,B>\<close> with the two components
  in the other order.
\<close>

theorem View_two_kinds:
  "(GetPool r a = None \<or> GetPool r b = None \<longrightarrow> View r [a, b] = Inr [])
   \<and> (GetPool r a = Some pA \<and> GetPool r b = Some pB \<and> pool_inv pA \<and> pool_inv pB
        \<and> pools_agree pA pB \<longrightarrow>
        (\<exists>calls calls'. View r [a, b] = Inr calls \<and> View r [b, a] = Inr calls'
           \<and> (\<forall>eid. count_list (map fst calls) eid =
                 (if eid \<in> set (m_packed pA) \<and> eid \<in> set (m_packed pB) then 1 else 0))
           \<and> (\<forall>(eid, vs) \<in> set calls. \<exists>va vb.
                 Pool_Get pA eid = Inr va \<and> Pool_Get pB eid = Inr vb \<and> vs = [va, vb])
           \<and> set calls' = (\<lambda>(eid, vs). (eid, rev vs)) ` set calls))"
proof (intro conjI impI)
  assume "GetPool r a = None \<or> GetPool r b = None"
  then show "View r [a, b] = Inr []" by (auto simp: View_def)
next
  assume h: "GetPool r a = Some pA \<and> GetPool r b = Some pB \<and> pool_inv pA \<and> pool_inv pB
        \<and> pools_agree pA pB"
  then have gA: "GetPool r a = Some pA" and gB: "GetPool r b = Some pB"
    and iA: "pool_inv pA" and iB: "pool_inv pB" and ag: "pools_agree pA pB"
    by simp_all
  define both where "both = filter (\<lambda>eid. eid \<in> set (m_packed pB)) (m_packed pA)"
  define both' where "both' = filter (\<lambda>eid. eid \<in> set (m_packed pA)) (m_packed pB)"
  define calls where "calls = map (\<lambda>eid. (eid, [projr (Pool_Get pA eid), projr (Pool_Get pB eid)])) both"
  define calls' where "calls' = map (\<lambda>eid. (eid, [projr (Pool_Get pB eid), projr (Pool_Get pA eid)])) both'"
  have fA: "filter (\<lambda>eid. Pool_Has pB eid) (m_packed pA) = both"
    unfolding both_def using agree_Has_member[OF iB ag] by (auto intro: filter_cong)
  have fB: "filter (\<lambda>eid. Pool_Has pA eid) (m_packed pB) = both'"
    unfolding both'_def using agree_Has_member[OF iA pools_agree_sym[OF ag]] by (auto intro: filter_cong)
  have v: "View r [a, b] = Inr calls"
    using View_pair[OF gA gB iA iB] by (simp add: fA calls_def)
  have v': "View r [b, a] = Inr calls'"
    using View_pair[OF gB gA iB iA] by (simp add: fB calls'_def)
  have ids: "map fst calls = both" by (simp add: calls_def comp_def)
  have d: "distinct both" using pool_inv_distinct[OF iA] by (simp add: both_def)
  have sb: "set both = set (m_packed pA) \<inter> set (m_packed pB)" by (auto simp: both_def)
  have sb': "set both' = set both" by (auto simp: both_def both'_def)
  have cnt: "\<forall>eid. count_list (map fst calls) eid =
                 (if eid \<in> set (m_packed pA) \<and> eid \<in> set (m_packed pB) then 1 else 0)"
    using count_list_distinct'[OF d] by (simp add: ids sb)
  have vals: "\<forall>(eid, vs) \<in> set calls. \<exists>va vb.
                 Pool_Get pA eid = Inr va \<and> Pool_Get pB eid = Inr vb \<and> vs = [va, vb]"
  proof (clarify)
    fix eid vs assume "(eid, vs) \<in> set calls"
    then have m: "eid \<in> set both" and vs: "vs = [projr (Pool_Get pA eid), projr (Pool_Get pB eid)]"
      by (auto simp: calls_def)
    from m have "eid \<in> set (m_packed pA)" "eid \<in> set (m_packed pB)" by (simp_all add: sb)
    then obtain va vb where "Pool_Get pA eid = Inr va" "Pool_Get pB eid = Inr vb"
      using pool_inv_Has_Get[OF iA pool_inv_member_Has[OF iA]]
        pool_inv_Has_Get[OF iB pool_inv_member_Has[OF iB]] by blast
    then show "\<exists>va vb. Pool_Get pA eid = Inr va \<and> Pool_Get pB eid = Inr vb \<and> vs = [va, vb]"
      using vs by simp
  qed
  have sym: "set calls' = (\<lambda>(eid, vs). (eid, rev vs)) ` set calls"
    by (auto simp: calls_def calls'_def sb' image_iff)
  show "\<exists>calls calls'. View r [a, b] = Inr calls \<and> View r [b, a] = Inr calls'
           \<and> (\<forall>eid. count_list (map fst calls) eid =
                 (if eid \<in> set (m_packed pA) \<and> eid \<in> set (m_packed pB) then 1 else 0))
           \<and> (\<forall>(eid, vs) \<in> set calls. \<exists>va vb.
                 Pool_Get pA eid = Inr va \<and> Pool_Get pB eid = Inr vb \<and> vs = [va, vb])
           \<and> set calls' = (\<lambda>(eid, vs). (eid, rev vs)) ` set calls"
    using v v' cnt vals sym by blast
qed

lemmas view_scenario_defs = e0_def e1_def e2_def view_pool_a_def view_pool_b_def reg_view_def
  double_pool_a_def double_pool_b_def reg_double_def

lemma reg_view_reached:
  "Registry_run Registry_init
     [Call_CreateEntity, Call_CreateEntity, Call_CreateEntity,
      Call_AddComponent 0 e0 10, Call_AddComponent 1 e0 100,
      Call_AddComponent 0 e1 11,
      Call_AddComponent 0 e2 12, Call_AddComponent 1 e2 102] = Inr reg_view"
  by (simp add: registry_defs pool_defs index_defs entity_defs const_defs view_scenario_defs Let_def
      set_bit_eq_or)


lemma reg_double_reached:
  "Registry_run Registry_init
     [Call_CreateEntity, Call_AddComponent 0 e0 1, Call_AddComponent 0 e0 2,
      Call_AddComponent 1 e0 3] = Inr reg_double"
  by (simp add: registry_defs pool_defs index_defs entity_defs const_defs view_scenario_defs Let_def
      set_bit_eq_or)

lemma view_pools_inv: "pool_inv view_pool_a" "pool_inv view_pool_b"
proof -
  have ra: "Pool_run Pool_init [OpAdd 0 10, OpAdd 1 11, OpAdd 2 12] = Inr view_pool_a"
    by (simp add: pool_defs slot_simps view_pool_a_def Let_def)
  have fa: "adds_fresh (Pool_init :: nat Pool) [OpAdd 0 10, OpAdd 1 11, OpAdd 2 12]"
    by (simp add: pool_defs slot_simps Let_def)
  from Pool_run_inv[OF pool_inv_init fa] ra show "pool_inv view_pool_a" by simp
  have rb: "Pool_run Pool_init [OpAdd 0 100, OpAdd 2 102] = Inr view_pool_b"
    by (simp add: pool_defs slot_simps view_pool_b_def Let_def)
  have fb: "adds_fresh (Pool_init :: nat Pool) [OpAdd 0 100, OpAdd 2 102]"
    by (simp add: pool_defs slot_simps Let_def)
  from Pool_run_inv[OF pool_inv_init fb] rb show "pool_inv view_pool_b" by simp
qed

lemma view_eval:
  "View reg_view [0, 1] = Inr [(0, [10, 100]), (2, [12, 102])]"
  "View reg_view [1, 0] = Inr [(0, [100, 10]), (2, [102, 12])]"
  "View reg_view [0, 2] = Inr []"
  by (simp_all add: View_def GetPool_def pool_defs slot_simps view_scenario_defs Registry_init_def Let_def)

text \<open>The theorem at three entities, two of which have both kinds, and at a kind
  without a pool.\<close>

theorem View_two_kinds_witness:
  "GetPool reg_view 0 = Some view_pool_a \<and> GetPool reg_view 1 = Some view_pool_b
   \<and> GetPool reg_view 2 = None
   \<and> pool_inv view_pool_a \<and> pool_inv view_pool_b \<and> pools_agree view_pool_a view_pool_b
   \<and> View reg_view [0, 2] = Inr []
   \<and> View reg_view [0, 1] = Inr [(0, [10, 100]), (2, [12, 102])]
   \<and> View reg_view [1, 0] = Inr [(0, [100, 10]), (2, [102, 12])]
   \<and> count_list (map fst [(0 :: EntityID, [10, 100 :: nat]), (2, [12, 102])]) 1 = 0
   \<and> set [(0 :: EntityID, [100, 10 :: nat]), (2, [102, 12])]
        = (\<lambda>(eid, vs). (eid, rev vs)) ` set [(0, [10, 100]), (2, [12, 102])]"
proof -
  have g: "GetPool reg_view 0 = Some view_pool_a" "GetPool reg_view 1 = Some view_pool_b"
    "GetPool reg_view 2 = None"
    by (simp_all add: GetPool_def reg_view_def Registry_init_def)
  have ag: "pools_agree view_pool_a view_pool_b"
    by (simp add: pools_agree_def view_pool_a_def view_pool_b_def slot_of_def slot_simps)
  have none: "View reg_view [0, 2] = Inr []"
    using View_two_kinds[where r = reg_view and a = 0 and b = 2] g by simp
  from View_two_kinds[where r = reg_view and a = 0 and b = 1 and pA = view_pool_a
      and pB = view_pool_b] g view_pools_inv ag
  obtain calls calls' where c: "View reg_view [0, 1] = Inr calls" "View reg_view [1, 0] = Inr calls'"
    "\<forall>eid. count_list (map fst calls) eid =
        (if eid \<in> set (m_packed view_pool_a) \<and> eid \<in> set (m_packed view_pool_b) then 1 else 0)"
    "set calls' = (\<lambda>(eid, vs). (eid, rev vs)) ` set calls"
    by blast
  from c(1,2) view_eval have e: "calls = [(0, [10, 100]), (2, [12, 102])]"
    "calls' = [(0, [100, 10]), (2, [102, 12])]" by simp_all
  have "count_list (map fst calls) 1 = 0"
    using c(3) by (simp add: view_pool_b_def)
  then show ?thesis using g view_pools_inv ag none c(4) view_eval(1,2) e by simp
qed

text \<open>
  Claim C3 as stated fails: \<open>AddComponent\<close> appends to the pool without looking for an
  existing component, so after adding kind 0 twice to one entity the leader pool lists
  the entity twice and \<open>View<A,B>\<close> calls the callback twice for it, while
  \<open>View<B,A>\<close> calls it once.
\<close>

theorem View_double_add_counterexample:
  "Registry_run Registry_init
     [Call_CreateEntity, Call_AddComponent 0 e0 1, Call_AddComponent 0 e0 2,
      Call_AddComponent 1 e0 3] = Inr reg_double
   \<and> View reg_double [0, 1] = Inr [(0, [2, 3]), (0, [2, 3])]
   \<and> View reg_double [1, 0] = Inr [(0, [3, 2])]"
proof -
  have "View reg_double [0, 1] = Inr [(0, [2, 3]), (0, [2, 3])]"
    "View reg_double [1, 0] = Inr [(0, [3, 2])]"
    by (simp_all add: View_def GetPool_def pool_defs slot_simps view_scenario_defs Registry_init_def Let_def)
  then show ?thesis using reg_double_reached by simp
qed

section \<open>Components of handles within the signature table\<close>

lemma Pool_Add_then_Get:
  assumes inv: "pool_inv p" and add: "Pool_Add p eid v = Inr p'"
  shows "Pool_Has p' eid" and "Pool_Get p' eid = Inr v"
proof -
  let ?s = "slot_of eid"
  let ?n = "length (m_packed p)"
  let ?sp = "m_sparse p"
  let ?sp1 = "alloc_page ?sp (?s div PAGE_SIZE)"
  let ?sp2 = "sparse_write ?sp1 (?s div PAGE_SIZE) (?s mod PAGE_SIZE) (int ?n)"
  have ld: "length (m_data p) = ?n" and wf: "pages_wf ?sp"
    and lsp: "length ?sp = MAX_ENTITIES div PAGE_SIZE + 1"
    using inv by (auto simp: pool_inv_def)
  have pg: "?s div PAGE_SIZE < length ?sp"
  proof (rule ccontr)
    assume "\<not> ?s div PAGE_SIZE < length ?sp"
    then have "245 \<le> ?s div 4096" using lsp by (simp add: MAX_ENTITIES_def PAGE_SIZE_def)
    then have "\<not> ?s < MAX_ENTITIES" by (simp add: MAX_ENTITIES_def)
    with \<open>\<not> ?s div PAGE_SIZE < length ?sp\<close> have "Pool_Add p eid v = Inl AssertionFailed"
      by (simp add: Pool_Add_def Let_def slot_of_def)
    with add show False by simp
  qed
  have cast: "int_cast (Suc ?n) - 1 = int ?n"
    using pool_inv_int_cast(2)[OF inv] by simp
  have p': "p' = \<lparr>m_data = m_data p @ [v], m_packed = m_packed p @ [eid], m_sparse = ?sp2\<rparr>"
    using add pg cast ld by (simp add: Pool_Add_def Let_def slot_of_def alloc_page_def)
  have ne1: "sparse_entry ?sp1 ?s \<noteq> None"
  proof (cases "?sp ! (?s div PAGE_SIZE)")
    case None
    then show ?thesis by (simp add: sparse_entry_alloc[OF pg])
  next
    case (Some a)
    then have "sparse_entry ?sp ?s \<noteq> None"
      using pg by (simp add: sparse_entry_def sparse_read_def)
    with Some show ?thesis by (simp add: sparse_entry_alloc[OF pg])
  qed
  have e2: "sparse_entry ?sp2 ?s = Some (int ?n)"
    using sparse_entry_write[OF pages_wf_alloc[OF wf] ne1, of "int ?n" ?s] by simp
  then have rd: "sparse_read ?sp2 (unat (GetEntityIndex eid) div PAGE_SIZE)
                   (unat (GetEntityIndex eid) mod PAGE_SIZE) = Some (int ?n)"
    by (simp add: sparse_entry_def slot_of_def)
  show "Pool_Has p' eid"
    using rd by (simp add: p' Pool_Has_def Let_def)
  have "(m_data p @ [v]) ! ?n = v" using ld by (metis nth_append_length)
  then show "Pool_Get p' eid = Inr v"
    using rd ld by (simp add: p' Pool_Get_def Let_def)
qed

lemma bit_set_bit_self: "n < 32 \<Longrightarrow> bit (set_bit n (w :: 32 word)) n"
  by (simp add: bit_simps)

lemma bit_unset_bit_self: "\<not> bit (unset_bit n (w :: 32 word)) n"
  by (simp add: bit_simps)

lemma AddComponent_then_Has:
  assumes "AddComponent r componentId e object = Inr r'"
  shows "HasComponent r' componentId e = Inr True"
  using assms
  by (auto simp: AddComponent_def HasComponent_def bitset_set_def bitset_test_def Let_def
      MAX_COMPONENTS_def bit_set_bit_self split: sum.splits if_splits)

lemma RemoveComponent_then_Has:
  assumes "RemoveComponent r componentId e = Inr r'"
  shows "HasComponent r' componentId e = Inr False"
  using assms
  by (auto simp: RemoveComponent_def HasComponent_def bitset_set_def bitset_test_def Let_def
      MAX_COMPONENTS_def bit_unset_bit_self split: sum.splits if_splits option.splits)

lemma AddComponent_then_Get:
  assumes add: "AddComponent r componentId e object = Inr r'"
    and inv: "\<And>p. GetPool r componentId = Some p \<Longrightarrow> pool_inv p"
  shows "GetComponent r' componentId e = Inr object"
proof -
  define pools1 where "pools1 = (if componentId \<ge> length (m_componentPools r)
                    then resize (m_componentPools r) (componentId + 1) None
                    else m_componentPools r)"
  define pool where "pool = (case pools1 ! componentId of None \<Rightarrow> Pool_init | Some p \<Rightarrow> p)"
  from add obtain pool' where pa: "Pool_Add pool (GetId e) object = Inr pool'"
    and mp: "m_componentPools r' = pools1[componentId := Some pool']"
    by (auto simp: AddComponent_def Let_def pools1_def pool_def split: sum.splits if_splits)
  have len: "componentId < length pools1"
    by (simp add: pools1_def resize_def)
  have pinv: "pool_inv pool"
  proof (cases "pools1 ! componentId")
    case None
    then show ?thesis by (simp add: pool_def pool_inv_init)
  next
    case (Some p)
    then have "componentId < length (m_componentPools r)"
      by (auto simp: pools1_def resize_def nth_append split: if_splits)
    with Some have "GetPool r componentId = Some p"
      by (simp add: GetPool_def pools1_def)
    from inv[OF this] Some show ?thesis by (simp add: pool_def)
  qed
  have "GetPool r' componentId = Some pool'"
    using len by (simp add: GetPool_def mp)
  then show ?thesis
    using Pool_Add_then_Get(2)[OF pinv pa] by (simp add: GetComponent_def)
qed

lemma EntityComponentLifecycle_test:
  "CreateEntity (Registry_init :: nat Registry) = Inr (e0, reg_created)
   \<and> (\<exists>r1 r2. AddComponent reg_created 0 e0 42 = Inr r1
         \<and> HasComponent r1 0 e0 = Inr True
         \<and> GetComponent r1 0 e0 = Inr 42
         \<and> RemoveComponent r1 0 e0 = Inr r2
         \<and> HasComponent r2 0 e0 = Inr False)"
  using create_first 
  by (simp add: registry_defs pool_defs index_defs entity_defs const_defs e0_def reg_created_def
      Let_def set_bit_eq_or unset_bit_eq_and_not)

section \<open>Invariants of the registries that calls reach\<close>

lemma CreateEntity_pending_ok:
  assumes c: "CreateEntity r = Inr (e, r1)" and ok: "pending_kills_ok r"
  shows "pending_kills_ok r1"
proof -
  note f = CreateEntity_result[OF c]
  have "IsValid r1 x" if "IsValid r x" for x
    using that f(4,5) by (auto simp: IsValid_iff)
  then show ?thesis
    using ok by (auto simp: pending_kills_ok_def f(3) list_all_iff)
qed

lemma Update_pending_ok: "Update r = Inr r' \<Longrightarrow> pending_kills_ok r'"
  by (auto simp: Update_def Let_def pending_kills_ok_def split: sum.splits)

lemma pending_kills_ok_cong:
  assumes "m_entityVersions r' = m_entityVersions r" "m_entitiesToBeKilled r' = m_entitiesToBeKilled r"
  shows "pending_kills_ok r' = pending_kills_ok r"
proof -
  have "IsValid r' = IsValid r" using IsValid_versions[OF assms(1)] by (rule ext)
  then show ?thesis by (simp add: pending_kills_ok_def assms(2))
qed

lemma AddComponent_frame:
  assumes "AddComponent r c e v = Inr r'"
  shows "m_entityVersions r' = m_entityVersions r" "m_entitiesToBeKilled r' = m_entitiesToBeKilled r"
  using assms by (auto simp: AddComponent_def Let_def split: sum.splits if_splits)

lemma RemoveComponent_frame:
  assumes "RemoveComponent r c e = Inr r'"
  shows "m_entityVersions r' = m_entityVersions r" "m_entitiesToBeKilled r' = m_entitiesToBeKilled r"
  using assms by (auto simp: RemoveComponent_def Let_def split: sum.splits if_splits option.splits)

lemma AddComponent_pending_ok:
  "AddComponent r c e v = Inr r' \<Longrightarrow> pending_kills_ok r \<Longrightarrow> pending_kills_ok r'"
  using pending_kills_ok_cong[OF AddComponent_frame(1) AddComponent_frame(2)] by metis

lemma RemoveComponent_pending_ok:
  "RemoveComponent r c e = Inr r' \<Longrightarrow> pending_kills_ok r \<Longrightarrow> pending_kills_ok r'"
  using pending_kills_ok_cong[OF RemoveComponent_frame(1) RemoveComponent_frame(2)] by metis

lemma TagEntity_frame:
  assumes "TagEntity r e tag = Inr r'"
  shows "m_entityVersions r' = m_entityVersions r" "m_entitiesToBeKilled r' = m_entitiesToBeKilled r"
    "m_componentPools r' = m_componentPools r"
    "m_entityComponentSignatures r' = m_entityComponentSignatures r"
  using assms by (auto simp: TagEntity_def Let_def split: if_splits)

lemma GroupEntity_frame:
  assumes "GroupEntity r e g = Inr r'"
  shows "m_entityVersions r' = m_entityVersions r" "m_entitiesToBeKilled r' = m_entitiesToBeKilled r"
    "m_componentPools r' = m_componentPools r"
    "m_entityComponentSignatures r' = m_entityComponentSignatures r"
  using assms by (auto simp: GroupEntity_def Let_def split: if_splits)

lemma RemoveEntityGroup_frame2:
  assumes "RemoveEntityGroup r e = Inr r'"
  shows "m_componentPools r' = m_componentPools r"
    "m_entityComponentSignatures r' = m_entityComponentSignatures r"
  using assms by (auto simp: RemoveEntityGroup_def Let_def split: if_splits sum.splits)

lemma RemoveEntityTag_frame2:
  "m_componentPools (RemoveEntityTag r e) = m_componentPools r"
  "m_entityComponentSignatures (RemoveEntityTag r e) = m_entityComponentSignatures r"
  by (simp_all add: RemoveEntityTag_def Let_def)

lemma AddSystem_frame:
  "m_entityVersions (AddSystem r ty sys) = m_entityVersions r"
  "m_entitiesToBeKilled (AddSystem r ty sys) = m_entitiesToBeKilled r"
  "m_componentPools (AddSystem r ty sys) = m_componentPools r"
  "m_entityComponentSignatures (AddSystem r ty sys) = m_entityComponentSignatures r"
  by (simp_all add: AddSystem_def)

lemma Registry_call_pending_ok:
  assumes "Registry_call r c = Inr r'" "pending_kills_ok r"
  shows "pending_kills_ok r'"
proof (cases c)
  case Call_CreateEntity
  with assms show ?thesis
    by (auto split: sum.splits prod.splits intro: CreateEntity_pending_ok)
next
  case (Call_KillEntity e)
  with assms show ?thesis by (auto intro: KillEntity_pending_ok)
next
  case Call_Update
  with assms show ?thesis by (auto intro: Update_pending_ok)
next
  case (Call_AddComponent k e v)
  with assms show ?thesis by (auto intro: AddComponent_pending_ok)
next
  case (Call_RemoveComponent k e)
  with assms show ?thesis by (auto intro: RemoveComponent_pending_ok)
next
  case (Call_TagEntity e tag)
  with assms have t: "TagEntity r e tag = Inr r'" by simp
  show ?thesis using pending_kills_ok_cong[OF TagEntity_frame(1,2)[OF t]] assms(2) by simp
next
  case (Call_RemoveEntityTag e)
  with assms have "r' = RemoveEntityTag r e" by simp
  then show ?thesis
    using pending_kills_ok_cong[of r' r] assms(2) by (simp add: RemoveEntityTag_frame)
next
  case (Call_GroupEntity e g)
  with assms have t: "GroupEntity r e g = Inr r'" by simp
  show ?thesis using pending_kills_ok_cong[OF GroupEntity_frame(1,2)[OF t]] assms(2) by simp
next
  case (Call_RemoveEntityGroup e)
  with assms have t: "RemoveEntityGroup r e = Inr r'" by simp
  show ?thesis using pending_kills_ok_cong[OF RemoveEntityGroup_frame(1,3)[OF t]] assms(2) by simp
next
  case (Call_AddSystem ty sys)
  with assms have "r' = AddSystem r ty sys" by simp
  then show ?thesis
    using pending_kills_ok_cong[of r' r] assms(2) by (simp add: AddSystem_frame)
qed

lemma Registry_run_pending_ok:
  "Registry_run r cs = Inr r' \<Longrightarrow> pending_kills_ok r \<Longrightarrow> pending_kills_ok r'"
proof (induction cs arbitrary: r)
  case Nil
  then show ?case by simp
next
  case (Cons c cs)
  then obtain r1 where "Registry_call r c = Inr r1" "Registry_run r1 cs = Inr r'"
    by (auto split: sum.splits)
  with Cons show ?case using Registry_call_pending_ok by blast
qed

lemma reachable_pending_kills_ok:
  "Registry_run Registry_init cs = Inr r \<Longrightarrow> pending_kills_ok r"
  by (erule Registry_run_pending_ok) (simp add: pending_kills_ok_def Registry_init_def)

lemma pool_wf_mono: "n \<le> m \<Longrightarrow> pool_wf n po \<Longrightarrow> pool_wf m po"
  by (auto simp: pool_wf_def list_all_iff split: option.splits)

lemma set_butlast_update_subset:
  assumes "l < length xs"
  shows "set (butlast (xs[j := xs ! l])) \<subseteq> set xs"
proof -
  have "set (butlast (xs[j := xs ! l])) \<subseteq> set (xs[j := xs ! l])"
    by (auto dest: in_set_butlastD)
  also have "\<dots> \<subseteq> insert (xs ! l) (set xs)" by (rule set_update_subset_insert)
  also have "\<dots> = set xs" using assms by auto
  finally show ?thesis .
qed

lemma Pool_Remove_packed_cases:
  assumes rm: "Pool_Remove p eid = Inr p'"
  shows "m_packed p' = m_packed p \<or> m_packed p' = butlast (m_packed p)
       \<or> (\<exists>j l. l < length (m_packed p) \<and> m_packed p' = butlast ((m_packed p)[j := m_packed p ! l]))"
proof (cases "Pool_Has p eid")
  case False
  with rm show ?thesis by (simp add: Pool_Remove_def)
next
  case True
  define l where "l = int_cast (length (m_data p)) - 1"
  from rm True obtain k where
    k: "sparse_read (m_sparse p) (unat (GetEntityIndex eid) div PAGE_SIZE)
          (unat (GetEntityIndex eid) mod PAGE_SIZE) = Some k"
    by (auto simp: Pool_Remove_def Let_def split: option.splits)
  show ?thesis
  proof (cases "k = l")
    case True
    with rm \<open>Pool_Has p eid\<close> k have "m_packed p' = butlast (m_packed p)"
      by (auto simp: Pool_Remove_def Let_def l_def split: if_splits)
    then show ?thesis by simp
  next
    case False
    with rm \<open>Pool_Has p eid\<close> k have "nat l < length (m_packed p)"
      and "m_packed p' = butlast ((m_packed p)[nat k := m_packed p ! nat l])"
      by (auto simp: Pool_Remove_def Let_def l_def split: if_splits option.splits)
    then show ?thesis by blast
  qed
qed

lemma Pool_Remove_packed_subset:
  assumes "Pool_Remove p eid = Inr p'"
  shows "set (m_packed p') \<subseteq> set (m_packed p)"
proof -
  from Pool_Remove_packed_cases[OF assms]
  consider "m_packed p' = m_packed p" | "m_packed p' = butlast (m_packed p)"
    | j l where "l < length (m_packed p)" "m_packed p' = butlast ((m_packed p)[j := m_packed p ! l])"
    by blast
  then show ?thesis
  proof cases
    case 1
    then show ?thesis by simp
  next
    case 2
    then show ?thesis by (auto dest: in_set_butlastD)
  next
    case 3
    then show ?thesis using set_butlast_update_subset[OF 3(1), of j] by simp
  qed
qed

lemma Pool_Remove_wf:
  assumes "pool_wf n (Some p)" "Pool_Remove p eid = Inr p'"
  shows "pool_wf n (Some p')"
proof -
  from assms(1) have inv: "pool_inv p" and rng: "list_all (\<lambda>x. unat x < n) (m_packed p)"
    by (simp_all add: pool_wf_def)
  from Pool_Remove_inv[OF inv, of eid] assms(2) have "pool_inv p'" by auto
  moreover have "list_all (\<lambda>x. unat x < n) (m_packed p')"
    using rng Pool_Remove_packed_subset[OF assms(2)] by (auto simp: list_all_iff)
  ultimately show ?thesis by (simp add: pool_wf_def)
qed

lemma remove_from_pools_wf:
  "list_all (pool_wf n) pools \<Longrightarrow> remove_from_pools pools eid = Inr pools' \<Longrightarrow>
     list_all (pool_wf n) pools'"
proof (induction pools eid arbitrary: pools' rule: remove_from_pools.induct)
  case (1 eid)
  then show ?case by simp
next
  case (2 pools eid)
  then show ?case by (auto split: sum.splits)
next
  case (3 pool pools eid)
  then show ?case
    by (auto split: sum.splits simp: Pool_RemoveEntityFromPool_def intro: Pool_Remove_wf)
qed

lemma Pool_Add_wf:
  assumes "pool_wf n (Some p)" "\<not> Pool_Has p eid" "unat eid < n" "Pool_Add p eid v = Inr p'"
  shows "pool_wf n (Some p')"
proof -
  from assms(1) have inv: "pool_inv p" and rng: "list_all (\<lambda>x. unat x < n) (m_packed p)"
    by (simp_all add: pool_wf_def)
  from Pool_Add_inv[OF inv assms(2), of v] assms(4) have "pool_inv p'" by auto
  moreover have "m_packed p' = m_packed p @ [eid]"
    using assms(4) by (auto simp: Pool_Add_def Let_def split: if_splits)
  ultimately show ?thesis using rng assms(3) by (simp add: pool_wf_def)
qed

lemma list_all_update: "list_all P xs \<Longrightarrow> P x \<Longrightarrow> list_all P (xs[i := x])"
  by (auto simp: list_all_iff dest!: set_update_subset_insert[THEN subsetD])

lemma list_all_resize: "list_all P xs \<Longrightarrow> P v \<Longrightarrow> list_all P (resize xs n v)"
  by (auto simp: resize_def list_all_iff dest: in_set_takeD)

lemma Pool_Has_init [simp]: "\<not> Pool_Has Pool_init eid"
  by (simp add: Pool_Has_entry Pool_init_def del: replicate_Suc)

lemma pool_wf_None [simp]: "pool_wf n None"
  by (simp add: pool_wf_def)

lemma pool_wf_init [simp]: "pool_wf n (Some Pool_init)"
  by (simp add: pool_wf_def pool_inv_init) (simp add: Pool_init_def)

lemma AddComponent_pools_ok:
  assumes add: "AddComponent r c e v = Inr r'"
    and ok: "registry_pools_ok r"
    and fresh: "case GetPool r c of None \<Rightarrow> True | Some p \<Rightarrow> \<not> Pool_Has p (GetId e)"
  shows "registry_pools_ok r'"
proof -
  let ?n = "length (m_entityComponentSignatures r)"
  define pools1 where "pools1 = (if c \<ge> length (m_componentPools r)
                    then resize (m_componentPools r) (c + 1) None
                    else m_componentPools r)"
  define pool where "pool = (case pools1 ! c of None \<Rightarrow> Pool_init | Some p \<Rightarrow> p)"
  from add obtain pool' sig where pa: "Pool_Add pool (GetId e) v = Inr pool'"
    and rng: "unat (GetId e) < ?n"
    and r': "r' = r\<lparr>m_componentPools := pools1[c := Some pool'],
                     m_entityComponentSignatures := (m_entityComponentSignatures r)[unat (GetId e) := sig]\<rparr>"
    by (auto simp: AddComponent_def Let_def pools1_def pool_def split: sum.splits if_splits)
  have all: "list_all (pool_wf ?n) (m_componentPools r)" and le: "?n \<le> 2 ^ 32"
    using ok by (simp_all add: registry_pools_ok_def)
  have all1: "list_all (pool_wf ?n) pools1"
    using all by (simp add: pools1_def list_all_resize)
  have len: "c < length pools1" by (simp add: pools1_def resize_def)
  have pw: "pool_wf ?n (Some pool)" and nh: "\<not> Pool_Has pool (GetId e)"
  proof -
    show "pool_wf ?n (Some pool)"
    proof (cases "pools1 ! c")
      case None
      then show ?thesis by (simp add: pool_def)
    next
      case (Some p)
      then show ?thesis using all1 len by (auto simp: pool_def list_all_length)
    qed
    show "\<not> Pool_Has pool (GetId e)"
    proof (cases "pools1 ! c")
      case None
      then show ?thesis by (simp add: pool_def)
    next
      case (Some p)
      then have "c < length (m_componentPools r)"
        by (auto simp: pools1_def resize_def nth_append split: if_splits)
      with Some have "GetPool r c = Some p" by (simp add: GetPool_def pools1_def)
      with fresh Some show ?thesis by (simp add: pool_def)
    qed
  qed
  from Pool_Add_wf[OF pw nh rng pa] have "pool_wf ?n (Some pool')" .
  with all1 have "list_all (pool_wf ?n) (pools1[c := Some pool'])" by (rule list_all_update)
  then show ?thesis using le by (simp add: registry_pools_ok_def r')
qed

lemma RemoveComponent_pools_ok:
  assumes rm: "RemoveComponent r c e = Inr r'" and ok: "registry_pools_ok r"
  shows "registry_pools_ok r'"
proof -
  let ?n = "length (m_entityComponentSignatures r)"
  from rm obtain pool pool' sig where g: "GetPool r c = Some pool"
    and pr: "Pool_Remove pool (GetId e) = Inr pool'"
    and r': "r' = r\<lparr>m_componentPools := (m_componentPools r)[c := Some pool'],
                     m_entityComponentSignatures := (m_entityComponentSignatures r)[unat (GetId e) := sig]\<rparr>"
    by (auto simp: RemoveComponent_def Pool_RemoveEntityFromPool_def Let_def
        split: sum.splits if_splits option.splits)
  have all: "list_all (pool_wf ?n) (m_componentPools r)" and le: "?n \<le> 2 ^ 32"
    using ok by (simp_all add: registry_pools_ok_def)
  from g have "c < length (m_componentPools r)" "m_componentPools r ! c = Some pool"
    by (auto simp: GetPool_def split: if_splits)
  with all have "pool_wf ?n (Some pool)" by (auto simp: list_all_length)
  from Pool_Remove_wf[OF this pr] all
  have "list_all (pool_wf ?n) ((m_componentPools r)[c := Some pool'])" by (auto intro: list_all_update)
  then show ?thesis using le by (simp add: registry_pools_ok_def r')
qed

lemma registry_pools_ok_cong:
  assumes "m_componentPools r' = m_componentPools r"
    "length (m_entityComponentSignatures r') = length (m_entityComponentSignatures r)"
  shows "registry_pools_ok r' = registry_pools_ok r"
  by (simp add: registry_pools_ok_def assms)

lemma unat_fresh_index:
  assumes "n < 2 ^ 31 - 1"
  shows "unat (word_of_nat n :: u32) = n" "unat ((word_of_nat n :: u32) + 1) = n + 1"
proof -
  show a: "unat (word_of_nat n :: u32) = n"
    using assms by (simp add: unat_of_nat)
  have "unat ((word_of_nat n :: u32) + 1) = (unat (word_of_nat n :: u32) + unat (1 :: u32)) mod 2 ^ 32"
    by (simp add: unat_word_ariths)
  also have "\<dots> = n + 1" using assms by (simp add: a)
  finally show "unat ((word_of_nat n :: u32) + 1) = n + 1" .
qed

lemma CreateEntity_pools_ok:
  assumes c: "CreateEntity r = Inr (e, r1)" and ok: "registry_pools_ok r"
  shows "registry_pools_ok r1"
proof -
  let ?n = "length (m_entityComponentSignatures r)"
  let ?n1 = "length (m_entityComponentSignatures r1)"
  have pools: "m_componentPools r1 = m_componentPools r"
    using c by (auto simp: CreateEntity_def Let_def split: if_splits prod.splits)
  have len: "?n \<le> ?n1 \<and> ?n1 \<le> 2 ^ 32"
  proof (cases "m_freeIndices r = []")
    case False
    with c have "m_entityComponentSignatures r1 = m_entityComponentSignatures r"
      by (auto simp: CreateEntity_def Let_def split: if_splits prod.splits)
    then show ?thesis using ok by (simp add: registry_pools_ok_def)
  next
    case True
    with c have small: "m_numEntities r < 2 ^ 31 - 1"
      by (auto simp: CreateEntity_def split: if_splits)
    note u = unat_fresh_index[OF small]
    from c True small have "?n1 = ?n \<or> (?n \<le> m_numEntities r \<and> ?n1 = m_numEntities r + 1)"
      by (auto simp: CreateEntity_def Let_def u resize_def split: if_splits prod.splits)
    then show ?thesis using ok small by (auto simp: registry_pools_ok_def)
  qed
  have "list_all (pool_wf ?n) (m_componentPools r)" using ok by (simp add: registry_pools_ok_def)
  then have "list_all (pool_wf ?n1) (m_componentPools r)"
    using len pool_wf_mono by (auto simp: list_all_iff)
  then show ?thesis using len by (simp add: registry_pools_ok_def pools)
qed

lemma kill_one_pools:
  assumes "kill_one r e = Inr r'"
  shows "length (m_entityComponentSignatures r') = length (m_entityComponentSignatures r)"
    and "m_componentPools r' = m_componentPools r
         \<or> remove_from_pools (m_componentPools r) (GetId e) = Inr (m_componentPools r')"
proof -
  show "length (m_entityComponentSignatures r') = length (m_entityComponentSignatures r)"
  proof (cases "IsValid r e")
    case False
    with assms show ?thesis by (simp add: kill_one_def)
  next
    case True
    with assms obtain pools' r5 where
      g: "RemoveEntityGroup (RemoveEntityTag
            (RemoveEntityFromSystems r e
              \<lparr>m_entityComponentSignatures :=
                 (m_entityComponentSignatures (RemoveEntityFromSystems r e))
                 [unat (GetEntityIndex (GetId e)) := 0],
               m_componentPools := pools'\<rparr>) e) e = Inr r5"
      and r': "r' = r5\<lparr>m_entityVersions :=
                 (m_entityVersions r5)[unat (GetEntityIndex (GetId e)) :=
                    m_entityVersions r5 ! unat (GetEntityIndex (GetId e)) + 1],
               m_freeIndices := m_freeIndices r5 @ [GetEntityIndex (GetId e)]\<rparr>"
      by (auto simp: kill_one_def Let_def split: if_splits sum.splits)
    show ?thesis
      using RemoveEntityGroup_frame2(2)[OF g] r'
      by (simp add: RemoveEntityTag_frame2 RemoveEntityFromSystems_def)
  qed
  show "m_componentPools r' = m_componentPools r
         \<or> remove_from_pools (m_componentPools r) (GetId e) = Inr (m_componentPools r')"
  proof (cases "IsValid r e")
    case False
    with assms show ?thesis by (simp add: kill_one_def)
  next
    case True
    with assms obtain pools' r5 where
      p: "remove_from_pools (m_componentPools r) (GetId e) = Inr pools'"
      and g: "RemoveEntityGroup (RemoveEntityTag
            (RemoveEntityFromSystems r e
              \<lparr>m_entityComponentSignatures :=
                 (m_entityComponentSignatures (RemoveEntityFromSystems r e))
                 [unat (GetEntityIndex (GetId e)) := 0],
               m_componentPools := pools'\<rparr>) e) e = Inr r5"
      and r': "r' = r5\<lparr>m_entityVersions :=
                 (m_entityVersions r5)[unat (GetEntityIndex (GetId e)) :=
                    m_entityVersions r5 ! unat (GetEntityIndex (GetId e)) + 1],
               m_freeIndices := m_freeIndices r5 @ [GetEntityIndex (GetId e)]\<rparr>"
      by (auto simp: kill_one_def Let_def RemoveEntityFromSystems_def split: if_splits sum.splits)
    have "m_componentPools r' = pools'"
      using RemoveEntityGroup_frame2(1)[OF g] r'
      by (simp add: RemoveEntityTag_frame2)
    with p show ?thesis by simp
  qed
qed

lemma kill_one_pools_ok:
  assumes "kill_one r e = Inr r'" "registry_pools_ok r"
  shows "registry_pools_ok r'"
proof -
  note k = kill_one_pools[OF assms(1)]
  have all: "list_all (pool_wf (length (m_entityComponentSignatures r))) (m_componentPools r)"
    using assms(2) by (simp add: registry_pools_ok_def)
  have "list_all (pool_wf (length (m_entityComponentSignatures r))) (m_componentPools r')"
    using k(2) all remove_from_pools_wf by auto
  then show ?thesis using assms(2) by (simp add: registry_pools_ok_def k(1))
qed

lemma kill_loop_pools_ok:
  "kill_loop r es = Inr r' \<Longrightarrow> registry_pools_ok r \<Longrightarrow> registry_pools_ok r'"
proof (induction es arbitrary: r)
  case Nil
  then show ?case by simp
next
  case (Cons x xs)
  then obtain r1 where "kill_one r x = Inr r1" "kill_loop r1 xs = Inr r'"
    by (auto split: sum.splits)
  with Cons show ?case using kill_one_pools_ok by blast
qed

lemma Update_pools_ok:
  assumes "Update r = Inr r'" "registry_pools_ok r"
  shows "registry_pools_ok r'"
proof -
  from assms(1) obtain r1 r3 where
    a: "add_loop r (m_entitiesToBeAdded r) = Inr r1"
    and k: "kill_loop (r1\<lparr>m_entitiesToBeAdded := []\<rparr>)
              (m_entitiesToBeKilled (r1\<lparr>m_entitiesToBeAdded := []\<rparr>)) = Inr r3"
    and r': "r' = r3\<lparr>m_entitiesToBeKilled := []\<rparr>"
    by (auto simp: Update_def Let_def split: sum.splits)
  from add_loop_frame[OF a] obtain s where s: "r1 = r\<lparr>m_systems := s\<rparr>" by blast
  have "registry_pools_ok (r1\<lparr>m_entitiesToBeAdded := []\<rparr>)"
    using assms(2) by (simp add: registry_pools_ok_def s)
  from kill_loop_pools_ok[OF k this] show ?thesis by (simp add: registry_pools_ok_def r')
qed

lemma Registry_call_pools_ok:
  assumes c: "Registry_call r c = Inr r'" and ok: "registry_pools_ok r"
    and fresh: "case c of
         Call_AddComponent componentId e object \<Rightarrow>
           (case GetPool r componentId of None \<Rightarrow> True | Some p \<Rightarrow> \<not> Pool_Has p (GetId e))
       | _ \<Rightarrow> True"
  shows "registry_pools_ok r'"
proof (cases c)
  case Call_CreateEntity
  with c ok show ?thesis
    by (auto split: sum.splits prod.splits intro: CreateEntity_pools_ok)
next
  case (Call_KillEntity e)
  with c ok show ?thesis by (auto simp: KillEntity_def registry_pools_ok_def)
next
  case Call_Update
  with c ok show ?thesis by (auto intro: Update_pools_ok)
next
  case (Call_AddComponent k e v)
  with c ok fresh show ?thesis by (auto intro: AddComponent_pools_ok)
next
  case (Call_RemoveComponent k e)
  with c ok show ?thesis by (auto intro: RemoveComponent_pools_ok)
next
  case (Call_TagEntity e tag)
  with c have t: "TagEntity r e tag = Inr r'" by simp
  show ?thesis using ok by (simp add: registry_pools_ok_def TagEntity_frame[OF t])
next
  case (Call_RemoveEntityTag e)
  with c have "r' = RemoveEntityTag r e" by simp
  then show ?thesis using ok by (simp add: registry_pools_ok_def RemoveEntityTag_frame2)
next
  case (Call_GroupEntity e g)
  with c have t: "GroupEntity r e g = Inr r'" by simp
  show ?thesis using ok by (simp add: registry_pools_ok_def GroupEntity_frame[OF t])
next
  case (Call_RemoveEntityGroup e)
  with c have t: "RemoveEntityGroup r e = Inr r'" by simp
  show ?thesis using ok by (simp add: registry_pools_ok_def RemoveEntityGroup_frame2[OF t])
next
  case (Call_AddSystem ty sys)
  with c have "r' = AddSystem r ty sys" by simp
  then show ?thesis using ok by (simp add: registry_pools_ok_def AddSystem_frame)
qed

lemma Registry_run_pools_ok:
  "Registry_run r cs = Inr r' \<Longrightarrow> calls_fresh r cs \<Longrightarrow> registry_pools_ok r \<Longrightarrow>
     registry_pools_ok r'"
proof (induction cs arbitrary: r)
  case Nil
  then show ?case by simp
next
  case (Cons c cs)
  from Cons.prems(1) obtain r1 where r1: "Registry_call r c = Inr r1" "Registry_run r1 cs = Inr r'"
    by (auto split: sum.splits)
  from Cons.prems(2) r1(1) have fr: "case c of
         Call_AddComponent componentId e object \<Rightarrow>
           (case GetPool r componentId of None \<Rightarrow> True | Some p \<Rightarrow> \<not> Pool_Has p (GetId e))
       | _ \<Rightarrow> True" and fr1: "calls_fresh r1 cs"
    by simp_all
  from Registry_call_pools_ok[OF r1(1) Cons.prems(3) fr] have "registry_pools_ok r1" .
  from Cons.IH[OF r1(2) fr1 this] show ?case .
qed

lemma reachable_pools_ok:
  "Registry_run Registry_init cs = Inr r \<Longrightarrow> calls_fresh Registry_init cs \<Longrightarrow> registry_pools_ok r"
  by (erule (1) Registry_run_pools_ok) (simp add: registry_pools_ok_def Registry_init_def)

lemma registry_pools_ok_GetPool:
  assumes "registry_pools_ok r" "GetPool r a = Some pA"
  shows "pool_inv pA" and "list_all (\<lambda>x. unat x < 2 ^ 32) (m_packed pA)"
proof -
  from assms(2) have "a < length (m_componentPools r)" "m_componentPools r ! a = Some pA"
    by (auto simp: GetPool_def split: if_splits)
  with assms(1) have w: "pool_wf (length (m_entityComponentSignatures r)) (Some pA)"
    and le: "length (m_entityComponentSignatures r) \<le> 2 ^ 32"
    by (auto simp: registry_pools_ok_def list_all_length)
  from w show "pool_inv pA" by (simp add: pool_wf_def)
  from w le show "list_all (\<lambda>x. unat x < 2 ^ 32) (m_packed pA)"
    by (auto simp: pool_wf_def list_all_iff)
qed

lemma reachable_View_hypotheses:
  assumes "Registry_run Registry_init cs = Inr r" "calls_fresh Registry_init cs"
    and "GetPool r a = Some pA" "GetPool r b = Some pB"
  shows "pool_inv pA \<and> pool_inv pB \<and> pools_agree pA pB"
proof -
  note ok = reachable_pools_ok[OF assms(1,2)]
  from registry_pools_ok_GetPool[OF ok assms(3)] registry_pools_ok_GetPool[OF ok assms(4)]
  show ?thesis by (simp add: pools_agree_small_ids)
qed

lemma reg_view_fresh:
  "calls_fresh (Registry_init :: nat Registry)
     [Call_CreateEntity, Call_CreateEntity, Call_CreateEntity,
      Call_AddComponent 0 e0 10, Call_AddComponent 1 e0 100,
      Call_AddComponent 0 e1 11,
      Call_AddComponent 0 e2 12, Call_AddComponent 1 e2 102]"
  by (simp add: registry_defs pool_defs index_defs entity_defs const_defs view_scenario_defs Let_def
      set_bit_eq_or)

section \<open>Recycling of a slot\<close>

text \<open>A handle is valid when \<open>CreateEntity\<close> returns it (\<open>CreateEntity_result\<close>), and it
  stays valid under every call but an \<open>Update\<close> that destroys an entity of its slot.\<close>

lemma IsValid_persists:
  assumes c: "Registry_call r c = Inr r'" and v: "IsValid r e" and ok: "pending_kills_ok r"
    and nk: "c = Call_Update \<Longrightarrow> entity_slot e \<notin> entity_slot ` set (m_entitiesToBeKilled r)"
  shows "IsValid r' e"
proof (cases c)
  case Call_CreateEntity
  with c obtain x where x: "CreateEntity r = Inr (x, r')"
    by (auto split: sum.splits prod.splits)
  note f = CreateEntity_result[OF x]
  show ?thesis using v f(4,5) by (auto simp: IsValid_iff)
next
  case (Call_KillEntity x)
  with c v show ?thesis by (auto simp: KillEntity_def)
next
  case Call_Update
  with c have u: "Update r = Inr r'" by simp
  note eff = Update_effect[OF u ok]
  have il: "unat (entity_slot e) < length (m_entityVersions r)" using v by (simp add: IsValid_iff)
  have "unat (entity_slot e) \<notin> (\<lambda>x. unat (entity_slot x)) ` set (m_entitiesToBeKilled r)"
    using nk[OF Call_Update] by (auto simp: word_unat_eq_iff[symmetric])
  then have "m_entityVersions r' ! unat (entity_slot e) = m_entityVersions r ! unat (entity_slot e)"
    using eff(3) il by simp
  then show ?thesis using v eff(2) by (simp add: IsValid_iff)
next
  case (Call_AddComponent k x w)
  with c have a: "AddComponent r k x w = Inr r'" by simp
  show ?thesis using IsValid_versions[OF AddComponent_frame(1)[OF a]] v by simp
next
  case (Call_RemoveComponent k x)
  with c have a: "RemoveComponent r k x = Inr r'" by simp
  show ?thesis using IsValid_versions[OF RemoveComponent_frame(1)[OF a]] v by simp
next
  case (Call_TagEntity x tag)
  with c have a: "TagEntity r x tag = Inr r'" by simp
  show ?thesis using IsValid_versions[OF TagEntity_frame(1)[OF a]] v by simp
next
  case (Call_RemoveEntityTag x)
  with c have a: "r' = RemoveEntityTag r x" by simp
  show ?thesis using IsValid_versions[of r' r] v by (simp add: a RemoveEntityTag_frame)
next
  case (Call_GroupEntity x g)
  with c have a: "GroupEntity r x g = Inr r'" by simp
  show ?thesis using IsValid_versions[OF GroupEntity_frame(1)[OF a]] v by simp
next
  case (Call_RemoveEntityGroup x)
  with c have a: "RemoveEntityGroup r x = Inr r'" by simp
  show ?thesis using IsValid_versions[OF RemoveEntityGroup_frame(1)[OF a]] v by simp
next
  case (Call_AddSystem ty sys)
  with c have a: "r' = AddSystem r ty sys" by simp
  show ?thesis using IsValid_versions[of r' r] v by (simp add: a AddSystem_frame)
qed

lemma Registry_call_kills_mono:
  assumes c: "Registry_call r c = Inr r'" and nu: "c \<noteq> Call_Update"
  shows "set (m_entitiesToBeKilled r) \<subseteq> set (m_entitiesToBeKilled r')"
proof (cases c)
  case Call_CreateEntity
  with c obtain x where x: "CreateEntity r = Inr (x, r')"
    by (auto split: sum.splits prod.splits)
  show ?thesis using CreateEntity_result(3)[OF x] by simp
next
  case (Call_KillEntity x)
  with c show ?thesis using set_insert_keeps[of "m_entitiesToBeKilled r" x]
    by (auto simp: KillEntity_def)
next
  case Call_Update
  with nu show ?thesis by simp
next
  case (Call_AddComponent k x w)
  with c have a: "AddComponent r k x w = Inr r'" by simp
  show ?thesis using AddComponent_frame(2)[OF a] by simp
next
  case (Call_RemoveComponent k x)
  with c have a: "RemoveComponent r k x = Inr r'" by simp
  show ?thesis using RemoveComponent_frame(2)[OF a] by simp
next
  case (Call_TagEntity x tag)
  with c have a: "TagEntity r x tag = Inr r'" by simp
  show ?thesis using TagEntity_frame(2)[OF a] by simp
next
  case (Call_RemoveEntityTag x)
  with c have a: "r' = RemoveEntityTag r x" by simp
  show ?thesis by (simp add: a RemoveEntityTag_frame)
next
  case (Call_GroupEntity x g)
  with c have a: "GroupEntity r x g = Inr r'" by simp
  show ?thesis using GroupEntity_frame(2)[OF a] by simp
next
  case (Call_RemoveEntityGroup x)
  with c have a: "RemoveEntityGroup r x = Inr r'" by simp
  show ?thesis using RemoveEntityGroup_frame(3)[OF a] by simp
next
  case (Call_AddSystem ty sys)
  with c have a: "r' = AddSystem r ty sys" by simp
  show ?thesis by (simp add: a AddSystem_frame)
qed

lemma Registry_run_no_Update:
  assumes "Registry_run r cs = Inr r'" "no_Update cs"
    and "IsValid r e" "pending_kills_ok r" "x \<in> set (m_entitiesToBeKilled r)"
  shows "IsValid r' e \<and> pending_kills_ok r' \<and> x \<in> set (m_entitiesToBeKilled r')"
  using assms
proof (induction cs arbitrary: r)
  case Nil
  then show ?case by simp
next
  case (Cons c cs)
  from Cons.prems(1) obtain r1 where r1: "Registry_call r c = Inr r1" "Registry_run r1 cs = Inr r'"
    by (auto split: sum.splits)
  from Cons.prems(2) have nu: "c \<noteq> Call_Update" and nus: "no_Update cs"
    by (auto simp: no_Update_def)
  have v1: "IsValid r1 e"
    using IsValid_persists[OF r1(1) Cons.prems(3,4)] nu by simp
  have ok1: "pending_kills_ok r1"
    using Registry_call_pending_ok[OF r1(1) Cons.prems(4)] .
  have x1: "x \<in> set (m_entitiesToBeKilled r1)"
    using Registry_call_kills_mono[OF r1(1) nu] Cons.prems(5) by auto
  from Cons.IH[OF r1(2) nus v1 ok1 x1] show ?case .
qed

lemma sorted_least_is_hd:
  assumes s: "sorted_wrt Entity_less xs" and x: "x \<in> set xs"
    and l: "list_all (\<lambda>y. \<not> Entity_less y x) xs"
  shows "\<exists>ys. xs = x # ys"
proof (cases xs)
  case Nil
  with x show ?thesis by simp
next
  case (Cons y ys)
  show ?thesis
  proof (cases "x = y")
    case True
    with Cons show ?thesis by simp
  next
    case False
    with x Cons have "x \<in> set ys" by simp
    with s Cons have "Entity_less y x" by simp
    moreover from l Cons have "\<not> Entity_less y x" by simp
    ultimately show ?thesis by simp
  qed
qed

lemma AddComponent_free:
  "AddComponent r c e v = Inr r' \<Longrightarrow> m_freeIndices r' = m_freeIndices r"
  by (auto simp: AddComponent_def Let_def split: sum.splits if_splits)

lemma RemoveComponent_free:
  "RemoveComponent r c e = Inr r' \<Longrightarrow> m_freeIndices r' = m_freeIndices r"
  by (auto simp: RemoveComponent_def Let_def split: sum.splits if_splits option.splits)

lemma TagEntity_free:
  "TagEntity r e t = Inr r' \<Longrightarrow> m_freeIndices r' = m_freeIndices r"
  by (auto simp: TagEntity_def Let_def split: if_splits)

lemma GroupEntity_free:
  "GroupEntity r e g = Inr r' \<Longrightarrow> m_freeIndices r' = m_freeIndices r"
  by (auto simp: GroupEntity_def Let_def split: if_splits)

text \<open>What the next creation depends on, the generation of a slot and the front of the
  free-list, is kept by every call that is not a creation and does not kill a handle of
  the slot.\<close>

lemma Registry_call_keeps_front:
  assumes c: "Registry_call r c = Inr r'"
    and na: "no_allocation e [c]"
    and ok: "pending_kills_ok r"
    and il: "unat (entity_slot e) < length (m_entityVersions r)"
    and nk: "entity_slot e \<notin> entity_slot ` set (m_entitiesToBeKilled r)"
  shows "pending_kills_ok r'
     \<and> length (m_entityVersions r') = length (m_entityVersions r)
     \<and> m_entityVersions r' ! unat (entity_slot e) = m_entityVersions r ! unat (entity_slot e)
     \<and> entity_slot e \<notin> entity_slot ` set (m_entitiesToBeKilled r')
     \<and> (\<exists>G. m_freeIndices r' = m_freeIndices r @ G)"
proof -
  have ok': "pending_kills_ok r'" using Registry_call_pending_ok[OF c ok] .
  have same: ?thesis
    if "m_entityVersions r' = m_entityVersions r" "m_entitiesToBeKilled r' = m_entitiesToBeKilled r"
      "m_freeIndices r' = m_freeIndices r"
    using that ok' nk by simp
  show ?thesis
  proof (cases c)
    case Call_CreateEntity
    with na show ?thesis by (simp add: no_allocation_def)
  next
    case (Call_KillEntity x)
    with na have sx: "entity_slot x \<noteq> entity_slot e" by (simp add: no_allocation_def)
    from Call_KillEntity c have r': "r' = KillEntity r x" by simp
    have "set (m_entitiesToBeKilled r') \<subseteq> insert x (set (m_entitiesToBeKilled r))"
      using set_set_insert[of x "m_entitiesToBeKilled r"] by (auto simp: r' KillEntity_def)
    then have "entity_slot e \<notin> entity_slot ` set (m_entitiesToBeKilled r')"
      using nk sx by auto
    moreover have "m_entityVersions r' = m_entityVersions r" "m_freeIndices r' = m_freeIndices r"
      by (simp_all add: r' KillEntity_def)
    ultimately show ?thesis using ok' by simp
  next
    case Call_Update
    with c have u: "Update r = Inr r'" by simp
    note eff = Update_effect[OF u ok]
    have "unat (entity_slot e) \<notin> (\<lambda>x. unat (entity_slot x)) ` set (m_entitiesToBeKilled r)"
      using nk by (auto simp: word_unat_eq_iff[symmetric])
    then have "m_entityVersions r' ! unat (entity_slot e) = m_entityVersions r ! unat (entity_slot e)"
      using eff(3) il by simp
    then show ?thesis using ok' eff(1,2,4) by simp
  next
    case (Call_AddComponent k x w)
    with c have a: "AddComponent r k x w = Inr r'" by simp
    show ?thesis using same[OF AddComponent_frame[OF a] AddComponent_free[OF a]] .
  next
    case (Call_RemoveComponent k x)
    with c have a: "RemoveComponent r k x = Inr r'" by simp
    show ?thesis using same[OF RemoveComponent_frame[OF a] RemoveComponent_free[OF a]] .
  next
    case (Call_TagEntity x tag)
    with c have a: "TagEntity r x tag = Inr r'" by simp
    show ?thesis using same[OF TagEntity_frame(1,2)[OF a] TagEntity_free[OF a]] .
  next
    case (Call_RemoveEntityTag x)
    with c have a: "r' = RemoveEntityTag r x" by simp
    show ?thesis by (rule same) (simp_all add: a RemoveEntityTag_frame)
  next
    case (Call_GroupEntity x g)
    with c have a: "GroupEntity r x g = Inr r'" by simp
    show ?thesis using same[OF GroupEntity_frame(1,2)[OF a] GroupEntity_free[OF a]] .
  next
    case (Call_RemoveEntityGroup x)
    with c have a: "RemoveEntityGroup r x = Inr r'" by simp
    show ?thesis using same[OF RemoveEntityGroup_frame(1,3,2)[OF a]] .
  next
    case (Call_AddSystem ty sys)
    with c have a: "r' = AddSystem r ty sys" by simp
    show ?thesis by (rule same) (simp_all add: a AddSystem_def)
  qed
qed

lemma Registry_run_keeps_front:
  assumes "Registry_run r cs = Inr r'"
    and "no_allocation e cs"
    and "pending_kills_ok r"
    and "unat (entity_slot e) < length (m_entityVersions r)"
    and "entity_slot e \<notin> entity_slot ` set (m_entitiesToBeKilled r)"
  shows "length (m_entityVersions r') = length (m_entityVersions r)
     \<and> m_entityVersions r' ! unat (entity_slot e) = m_entityVersions r ! unat (entity_slot e)
     \<and> (\<exists>G. m_freeIndices r' = m_freeIndices r @ G)"
  using assms
proof (induction cs arbitrary: r)
  case Nil
  then show ?case by simp
next
  case (Cons c cs)
  from Cons.prems(1) obtain r1 where r1: "Registry_call r c = Inr r1" "Registry_run r1 cs = Inr r'"
    by (auto split: sum.splits)
  from Cons.prems(2) have na: "no_allocation e [c]" and nas: "no_allocation e cs"
    by (simp_all add: no_allocation_def)
  from Registry_call_keeps_front[OF r1(1) na Cons.prems(3,4,5)]
  obtain G where k: "pending_kills_ok r1"
    "length (m_entityVersions r1) = length (m_entityVersions r)"
    "m_entityVersions r1 ! unat (entity_slot e) = m_entityVersions r ! unat (entity_slot e)"
    "entity_slot e \<notin> entity_slot ` set (m_entitiesToBeKilled r1)"
    "m_freeIndices r1 = m_freeIndices r @ G"
    by blast
  have il1: "unat (entity_slot e) < length (m_entityVersions r1)" using k(2) Cons.prems(4) by simp
  from Cons.IH[OF r1(2) nas k(1) il1 k(4)]
  obtain G' where "length (m_entityVersions r') = length (m_entityVersions r1)"
    "m_entityVersions r' ! unat (entity_slot e) = m_entityVersions r1 ! unat (entity_slot e)"
    "m_freeIndices r' = m_freeIndices r1 @ G'"
    by blast
  then show ?case using k by simp
qed

text \<open>
  Claim C4, as amended. Let \<open>e\<close> be a valid handle, so created and not yet destroyed,
  whether pending or visible, of a registry whose pending-destroy set holds valid
  handles. Let it be killed and, after any calls that are not \<open>Update\<close>, let the registry
  be synchronized. Then \<open>IsValid(e)\<close> is false, the generation of the slot is \<open>e\<close>'s
  plus one, and the slots of the destroyed entities are appended to the free-list in the
  order of their ids, \<open>e\<close> among them. After any further calls that are not
  \<open>CreateEntity\<close> and do not kill a handle of the slot of \<open>e\<close>, \<open>IsValid(e)\<close> is still
  false, and every \<open>CreateEntity\<close> takes the slot that was at the front of the free-list
  after the synchronize, returns a handle with another id than \<open>e\<close>, and leaves
  \<open>IsValid(e)\<close> false. If the free-list is empty at that synchronize and no entity with
  a smaller id is destroyed by it, the front of the free-list is the slot of \<open>e\<close>:
  \<open>CreateEntity\<close> returns, and its handle has the slot index of \<open>e\<close> and the
  generation of \<open>e\<close> plus one (greater unless the 32-bit counter wraps).
\<close>

theorem recycled_slot_new_generation:
  assumes v1: "IsValid r1 e"
    and ok: "pending_kills_ok r1"
    and run: "Registry_run (KillEntity r1 e) cs = Inr rk"
    and nu: "no_Update cs"
    and u: "Update rk = Inr r2"
    and run': "Registry_run r2 cs' = Inr rn"
    and na: "no_allocation e cs'"
  shows "\<not> IsValid r2 e
     \<and> m_entityVersions r2 ! unat (entity_slot e) = GetEntityVersion (GetId e) + 1
     \<and> m_freeIndices r2 = m_freeIndices rk @ map entity_slot (m_entitiesToBeKilled rk)
     \<and> list_ex (\<lambda>x. Entity_eq x e) (m_entitiesToBeKilled rk)
     \<and> \<not> IsValid rn e
     \<and> (\<forall>e' r3. CreateEntity rn = Inr (e', r3) \<longrightarrow>
          \<not> IsValid r3 e \<and> IsValid r3 e' \<and> GetId e' \<noteq> GetId e
          \<and> entity_slot e' = hd (m_freeIndices r2)
          \<and> (entity_slot e' = entity_slot e \<longrightarrow>
                GetEntityVersion (GetId e') = GetEntityVersion (GetId e) + 1))
     \<and> (m_freeIndices rk = [] \<and> list_all (\<lambda>x. \<not> Entity_less x e) (m_entitiesToBeKilled rk) \<longrightarrow>
          (\<exists>e' r3. CreateEntity rn = Inr (e', r3)
             \<and> GetEntityIndex (GetId e') = GetEntityIndex (GetId e)
             \<and> GetEntityVersion (GetId e') = GetEntityVersion (GetId e) + 1
             \<and> (GetEntityVersion (GetId e) \<noteq> - 1 \<longrightarrow>
                  GetEntityVersion (GetId e) < GetEntityVersion (GetId e'))
             \<and> GetId e' \<noteq> GetId e
             \<and> \<not> IsValid r3 e \<and> IsValid r3 e'))"
proof -
  let ?i = "unat (entity_slot e)"
  let ?v = "GetEntityVersion (GetId e)"
  let ?K = "m_entitiesToBeKilled rk"
  let ?r0 = "KillEntity r1 e"
  have v0: "IsValid ?r0 e" using v1 by (simp add: KillEntity_def)
  have ok0: "pending_kills_ok ?r0" using ok by (rule KillEntity_pending_ok)
  from set_insert_has[of e "m_entitiesToBeKilled r1"] v1
  obtain x where x0: "x \<in> set (m_entitiesToBeKilled ?r0)" and xid: "GetId x = GetId e"
    by (auto simp: KillEntity_def)
  from Registry_run_no_Update[OF run nu v0 ok0 x0]
  have vk: "IsValid rk e" and okk: "pending_kills_ok rk" and xk: "x \<in> set ?K"
    by simp_all
  have sx: "entity_slot x = entity_slot e" using xid by (simp add: entity_slot_def)
  from vk have il: "?i < length (m_entityVersions rk)" and ver: "m_entityVersions rk ! ?i = ?v"
    by (simp_all add: IsValid_iff)
  note eff = Update_effect[OF u okk]
  have mem: "?i \<in> (\<lambda>x. unat (entity_slot x)) ` set ?K"
    using xk sx by (metis image_eqI)
  have ver2: "m_entityVersions r2 ! ?i = ?v + 1" using eff(3) il mem ver by simp
  have il2: "?i < length (m_entityVersions r2)" using eff(2) il by simp
  have inv2: "\<not> IsValid r2 e" using ver2 il2 by (simp add: IsValid_iff)
  have f2: "m_freeIndices r2 = m_freeIndices rk @ map entity_slot ?K" by (rule eff(1))
  have ne2: "m_freeIndices r2 \<noteq> []" using f2 xk by auto
  have pend: "list_ex (\<lambda>x. Entity_eq x e) ?K"
    using xk xid by (auto simp: list_ex_iff Entity_eq_def)
  have ok2: "pending_kills_ok r2" using Update_pending_ok[OF u] .
  have nk2: "entity_slot e \<notin> entity_slot ` set (m_entitiesToBeKilled r2)"
    using eff(4) by simp
  from Registry_run_keeps_front[OF run' na ok2 il2 nk2]
  obtain G where iln: "?i < length (m_entityVersions rn)"
    and vern: "m_entityVersions rn ! ?i = ?v + 1"
    and fn: "m_freeIndices rn = m_freeIndices r2 @ G"
    using il2 ver2 by auto
  have invn: "\<not> IsValid rn e" using vern iln by (simp add: IsValid_iff)
  have nen: "m_freeIndices rn \<noteq> []" and hdn: "hd (m_freeIndices rn) = hd (m_freeIndices r2)"
    using fn ne2 by simp_all
  have gen: "\<not> IsValid r3 e \<and> IsValid r3 e' \<and> GetId e' \<noteq> GetId e
          \<and> entity_slot e' = hd (m_freeIndices r2)
          \<and> (entity_slot e' = entity_slot e \<longrightarrow> GetEntityVersion (GetId e') = ?v + 1)"
    if cr: "CreateEntity rn = Inr (e', r3)" for e' r3
  proof -
    note f = CreateEntity_result[OF cr]
    have v3: "m_entityVersions r3 ! ?i = ?v + 1" using f(5) iln vern by simp
    then have inv3: "\<not> IsValid r3 e" by (simp add: IsValid_iff)
    have val3: "IsValid r3 e'" by (rule f(1))
    have ne: "GetId e' \<noteq> GetId e"
    proof
      assume "GetId e' = GetId e"
      then have "IsValid r3 e' = IsValid r3 e" by (simp add: IsValid_def)
      with inv3 val3 show False by simp
    qed
    have hd: "entity_slot e' = hd (m_freeIndices r2)" using f(6)[OF nen] hdn by simp
    have "GetEntityVersion (GetId e') = ?v + 1" if "entity_slot e' = entity_slot e"
      using val3 v3 that by (simp add: IsValid_iff)
    then show ?thesis using inv3 val3 ne hd by blast
  qed
  have rec: "\<exists>e' r3. CreateEntity rn = Inr (e', r3)
             \<and> GetEntityIndex (GetId e') = GetEntityIndex (GetId e)
             \<and> GetEntityVersion (GetId e') = ?v + 1
             \<and> (?v \<noteq> - 1 \<longrightarrow> ?v < GetEntityVersion (GetId e'))
             \<and> GetId e' \<noteq> GetId e
             \<and> \<not> IsValid r3 e \<and> IsValid r3 e'"
    if fr: "m_freeIndices rk = []"
      and least: "list_all (\<lambda>x. \<not> Entity_less x e) ?K"
  proof -
    have "list_all (\<lambda>y. \<not> Entity_less y x) ?K"
      using least xid by (simp add: Entity_less_def)
    from sorted_least_is_hd[OF _ xk this] okk obtain ys where ys: "?K = x # ys"
      by (auto simp: pending_kills_ok_def)
    then have fn': "m_freeIndices rn = entity_slot e # (map entity_slot ys @ G)"
      using f2 fn fr sx by simp
    define e' where "e' = \<lparr>m_id = CreateEntityId (entity_slot e) (m_entityVersions rn ! ?i),
                            registry = this_registry\<rparr>"
    define r3 where "r3 = rn\<lparr>m_freeIndices := map entity_slot ys @ G,
                  m_entitiesToBeAdded := set_insert e' (m_entitiesToBeAdded rn)\<rparr>"
    have cr: "CreateEntity rn = Inr (e', r3)"
      using CreateEntity_recycle[OF fn' iln] by (simp add: e'_def r3_def)
    have id': "GetId e' = CreateEntityId (entity_slot e) (?v + 1)"
      by (simp add: e'_def GetId_def vern)
    have ix: "GetEntityIndex (GetId e') = GetEntityIndex (GetId e)"
      by (simp add: id' entity_slot_def)
    have gv: "GetEntityVersion (GetId e') = ?v + 1" by (simp add: id')
    have "?v \<noteq> - 1 \<longrightarrow> ?v < GetEntityVersion (GetId e')"
      using gv word_succ_less by simp
    then show ?thesis using cr ix gv gen[OF cr] by blast
  qed
  show ?thesis using inv2 ver2 f2 pend invn gen rec by blast
qed

lemma update_created: "Update reg_created = Inr reg_flushed"
  by (simp add: registry_defs index_defs entity_defs e0_def reg_created_def reg_flushed_def Let_def)

lemma update_flushed_killed: "Update (KillEntity reg_flushed e0) = Inr reg_recycled"
  by (simp add: registry_defs index_defs entity_defs e0_def reg_created_def reg_flushed_def
      reg_recycled_def Let_def)

lemma create_two: "CreateEntity reg_created = Inr (e1, reg_two_created)"
  by (simp add: registry_defs index_defs entity_defs scenario_defs Let_def)

lemma run_one_free:
  "Registry_run (Registry_init :: nat Registry)
     [Call_CreateEntity, Call_CreateEntity, Call_KillEntity e1, Call_Update] = Inr reg_one_free"
proof -
  have "Update (KillEntity reg_two_created e1) = Inr reg_one_free"
    by (simp add: registry_defs index_defs entity_defs scenario_defs reg_one_free_def Let_def)
  then show ?thesis using create_first create_two by simp
qed

lemma update_one_free: "Update (KillEntity reg_one_free e0) = Inr reg_one_free_b"
  by (simp add: registry_defs index_defs entity_defs scenario_defs reg_one_free_def
      reg_one_free_b_def Let_def)

lemma create_one_free: "CreateEntity reg_one_free_b = Inr (e1_gen1, reg_one_free_c)"
  by (simp add: registry_defs index_defs entity_defs scenario_defs reg_one_free_def
      reg_one_free_b_def reg_one_free_c_def Let_def)

lemma update_recycled: "Update reg_recycled = Inr reg_recycled"
  by (simp add: registry_defs reg_recycled_def Let_def)

text \<open>The theorem at three lifecycles. An entity is created, synchronized, killed and
  synchronized, and the registry synchronized once more: the next creation recycles its
  slot. An entity is created, killed twice and synchronized: the same. Two entities are
  created, the second is killed and synchronized, then the first is killed and
  synchronized: the free-list is \<open>[1, 0]\<close> and the next creation takes slot 1.\<close>

theorem recycled_slot_new_generation_witness:
  "Registry_run (Registry_init :: nat Registry) [Call_CreateEntity, Call_Update] = Inr reg_flushed
   \<and> IsValid reg_flushed e0 \<and> pending_kills_ok reg_flushed
   \<and> Update (KillEntity reg_flushed e0) = Inr reg_recycled
   \<and> \<not> IsValid reg_recycled e0
   \<and> Registry_run reg_recycled [Call_Update] = Inr reg_recycled
   \<and> no_allocation e0 [Call_Update :: nat registry_call]
   \<and> CreateEntity reg_recycled = Inr (e0_gen1, reg_recreated)
   \<and> GetEntityIndex (GetId e0_gen1) = GetEntityIndex (GetId e0)
   \<and> GetEntityVersion (GetId e0_gen1) = GetEntityVersion (GetId e0) + 1
   \<and> GetId e0_gen1 \<noteq> GetId e0
   \<and> \<not> IsValid reg_recreated e0 \<and> IsValid reg_recreated e0_gen1
   \<and> CreateEntity (Registry_init :: nat Registry) = Inr (e0, reg_created)
   \<and> IsValid reg_created e0 \<and> pending_kills_ok reg_created
   \<and> Registry_run (KillEntity reg_created e0) [Call_KillEntity e0]
        = Inr (reg_created\<lparr>m_entitiesToBeKilled := [e0]\<rparr>)
   \<and> no_Update [Call_KillEntity e0 :: nat registry_call]
   \<and> Update (reg_created\<lparr>m_entitiesToBeKilled := [e0]\<rparr>) = Inr reg_recycled
   \<and> Registry_run (Registry_init :: nat Registry)
        [Call_CreateEntity, Call_CreateEntity, Call_KillEntity e1, Call_Update] = Inr reg_one_free
   \<and> IsValid reg_one_free e0 \<and> pending_kills_ok reg_one_free
   \<and> Update (KillEntity reg_one_free e0) = Inr reg_one_free_b
   \<and> m_freeIndices reg_one_free_b = [1, 0]
   \<and> CreateEntity reg_one_free_b = Inr (e1_gen1, reg_one_free_c)
   \<and> entity_slot e1_gen1 = 1 \<and> entity_slot e0 = 0
   \<and> \<not> IsValid reg_one_free_c e0 \<and> IsValid reg_one_free_c e1_gen1"
proof -
  have nu: "no_Update ([] :: nat registry_call list)"
    "no_Update [Call_KillEntity e0 :: nat registry_call]"
    by (simp_all add: no_Update_def)
  have na: "no_allocation e0 ([] :: nat registry_call list)"
    "no_allocation e0 [Call_Update :: nat registry_call]"
    by (simp_all add: no_allocation_def)
  have nil: "Registry_run r [] = Inr r" for r :: "nat Registry"
    by simp
  have run: "Registry_run (Registry_init :: nat Registry) [Call_CreateEntity, Call_Update] = Inr reg_flushed"
    using create_first update_created by simp
  have v: "IsValid reg_flushed e0"
    by (simp add: IsValid_def reg_flushed_def reg_created_def e0_def index_defs entity_defs Registry_init_def)
  have ok: "pending_kills_ok reg_flushed"
    by (simp add: pending_kills_ok_def reg_flushed_def reg_created_def Registry_init_def)
  have again: "Registry_run reg_recycled [Call_Update] = Inr reg_recycled"
    using update_recycled by simp
  have h: "m_freeIndices (KillEntity reg_flushed e0) = []"
    "list_all (\<lambda>x. \<not> Entity_less x e0) (m_entitiesToBeKilled (KillEntity reg_flushed e0))"
    by (simp_all add: KillEntity_def IsValid_def reg_flushed_def reg_created_def Registry_init_def
        e0_def index_defs entity_defs)
  from recycled_slot_new_generation[OF v ok nil nu(1) update_flushed_killed again na(2)] h
  obtain e' r3 where r: "\<not> IsValid reg_recycled e0" "CreateEntity reg_recycled = Inr (e', r3)"
    "GetEntityIndex (GetId e') = GetEntityIndex (GetId e0)"
    "GetEntityVersion (GetId e') = GetEntityVersion (GetId e0) + 1"
    "GetId e' \<noteq> GetId e0" "\<not> IsValid r3 e0" "IsValid r3 e'"
    by blast
  from r(2) create_second have eq: "e' = e0_gen1" "r3 = reg_recreated" by simp_all
  have a: "Registry_run (Registry_init :: nat Registry) [Call_CreateEntity, Call_Update] = Inr reg_flushed
   \<and> IsValid reg_flushed e0 \<and> pending_kills_ok reg_flushed
   \<and> Update (KillEntity reg_flushed e0) = Inr reg_recycled
   \<and> \<not> IsValid reg_recycled e0
   \<and> Registry_run reg_recycled [Call_Update] = Inr reg_recycled
   \<and> no_allocation e0 [Call_Update :: nat registry_call]
   \<and> CreateEntity reg_recycled = Inr (e0_gen1, reg_recreated)
   \<and> GetEntityIndex (GetId e0_gen1) = GetEntityIndex (GetId e0)
   \<and> GetEntityVersion (GetId e0_gen1) = GetEntityVersion (GetId e0) + 1
   \<and> GetId e0_gen1 \<noteq> GetId e0
   \<and> \<not> IsValid reg_recreated e0 \<and> IsValid reg_recreated e0_gen1"
    using run v ok update_flushed_killed again na(2) r eq by blast
  have vc: "IsValid reg_created e0"
    by (simp add: IsValid_def reg_created_def e0_def index_defs entity_defs Registry_init_def)
  have okc: "pending_kills_ok reg_created"
    by (simp add: pending_kills_ok_def reg_created_def Registry_init_def)
  have kc: "Registry_run (KillEntity reg_created e0) [Call_KillEntity e0]
        = Inr (reg_created\<lparr>m_entitiesToBeKilled := [e0]\<rparr>)"
    using KillEntity_idem[of reg_created e0] kill_first by simp
  have hc: "m_freeIndices (reg_created\<lparr>m_entitiesToBeKilled := [e0]\<rparr>) = []"
    "list_all (\<lambda>x. \<not> Entity_less x e0)
       (m_entitiesToBeKilled (reg_created\<lparr>m_entitiesToBeKilled := [e0]\<rparr>))"
    by (simp_all add: reg_created_def Registry_init_def e0_def entity_defs)
  from recycled_slot_new_generation[OF vc okc kc nu(2) update_first nil na(1)] hc
  obtain e'' r3' where rc: "CreateEntity reg_recycled = Inr (e'', r3')"
    by blast
  have b: "CreateEntity (Registry_init :: nat Registry) = Inr (e0, reg_created)
   \<and> IsValid reg_created e0 \<and> pending_kills_ok reg_created
   \<and> Registry_run (KillEntity reg_created e0) [Call_KillEntity e0]
        = Inr (reg_created\<lparr>m_entitiesToBeKilled := [e0]\<rparr>)
   \<and> no_Update [Call_KillEntity e0 :: nat registry_call]
   \<and> Update (reg_created\<lparr>m_entitiesToBeKilled := [e0]\<rparr>) = Inr reg_recycled"
    using create_first vc okc kc nu(2) update_first by blast
  have v': "IsValid reg_one_free e0"
    by (simp add: IsValid_def reg_one_free_def e0_def index_defs entity_defs Registry_init_def)
  have ok': "pending_kills_ok reg_one_free"
    by (simp add: pending_kills_ok_def reg_one_free_def Registry_init_def)
  from recycled_slot_new_generation[OF v' ok' nil nu(1) update_one_free nil na(1)] create_one_free
  have g: "\<not> IsValid reg_one_free_c e0" "IsValid reg_one_free_c e1_gen1"
    "entity_slot e1_gen1 = hd (m_freeIndices reg_one_free_b)"
    by blast+
  have s: "entity_slot e0 = 0" "m_freeIndices reg_one_free_b = [1, 0]"
    by (simp_all add: entity_slot_def e0_def index_defs entity_defs reg_one_free_b_def)
  from g(3) s(2) have s1: "entity_slot e1_gen1 = 1" by simp
  have c: "Registry_run (Registry_init :: nat Registry)
        [Call_CreateEntity, Call_CreateEntity, Call_KillEntity e1, Call_Update] = Inr reg_one_free
   \<and> IsValid reg_one_free e0 \<and> pending_kills_ok reg_one_free
   \<and> Update (KillEntity reg_one_free e0) = Inr reg_one_free_b
   \<and> m_freeIndices reg_one_free_b = [1, 0]
   \<and> CreateEntity reg_one_free_b = Inr (e1_gen1, reg_one_free_c)
   \<and> entity_slot e1_gen1 = 1 \<and> entity_slot e0 = 0
   \<and> \<not> IsValid reg_one_free_c e0 \<and> IsValid reg_one_free_c e1_gen1"
    using run_one_free v' ok' update_one_free create_one_free g(1,2) s s1 by blast
  show ?thesis using a b c by blast
qed

text \<open>
  Claim C4 as stated fails: the free-list is a queue. With slots 0 and 1 in the
  free-list, the entity created next takes slot 0; after it is killed and synchronized
  the free-list is \<open>[1, 0]\<close>, and the next \<open>CreateEntity\<close>, with no allocation in
  between, returns slot 1.
\<close>

theorem recycled_slot_counterexample:
  "CreateEntity (Registry_init :: nat Registry) = Inr (e0, reg_created)
   \<and> CreateEntity reg_created = Inr (e1, reg_two_created)
   \<and> Update (KillEntity (KillEntity reg_two_created e0) e1) = Inr reg_two_free
   \<and> CreateEntity reg_two_free = Inr (e0_gen1, reg_two_a)
   \<and> Update (KillEntity reg_two_a e0_gen1) = Inr reg_two_b
   \<and> CreateEntity reg_two_b = Inr (e1_gen1, reg_two_c)
   \<and> GetEntityIndex (GetId e0_gen1) = 0
   \<and> GetEntityIndex (GetId e1_gen1) = 1
   \<and> GetEntityIndex (GetId e1_gen1) \<noteq> GetEntityIndex (GetId e0_gen1)"
proof -
  have a: "CreateEntity reg_created = Inr (e1, reg_two_created)"
    by (simp add: registry_defs index_defs entity_defs scenario_defs Let_def)
  have b: "Update (KillEntity (KillEntity reg_two_created e0) e1) = Inr reg_two_free"
    by (simp add: registry_defs index_defs entity_defs scenario_defs Let_def)
  have c: "CreateEntity reg_two_free = Inr (e0_gen1, reg_two_a)"
    by (simp add: registry_defs index_defs entity_defs scenario_defs Let_def)
  have d: "Update (KillEntity reg_two_a e0_gen1) = Inr reg_two_b"
    by (simp add: registry_defs index_defs entity_defs scenario_defs Let_def)
  have e: "CreateEntity reg_two_b = Inr (e1_gen1, reg_two_c)"
    by (simp add: registry_defs index_defs entity_defs scenario_defs Let_def)
  have f: "GetEntityIndex (GetId e0_gen1) = 0" "GetEntityIndex (GetId e1_gen1) = 1"
    by (simp_all add: index_defs entity_defs scenario_defs)
  show ?thesis using create_first a b c d e f by simp
qed

section \<open>Lookup of a tag\<close>

lemma RemoveEntityGroup_tags:
  "RemoveEntityGroup r e = Inr r' \<Longrightarrow> m_tagToEntity r' = m_tagToEntity r \<and> m_entityToTag r' = m_entityToTag r"
  by (auto simp: RemoveEntityGroup_def Let_def split: if_splits sum.splits)

lemma RemoveEntityTag_None:
  "m_tagToEntity r h = None \<Longrightarrow> m_tagToEntity (RemoveEntityTag r e) h = None"
  by (simp add: RemoveEntityTag_def Let_def)

lemma kill_one_tag_None:
  assumes "kill_one r e = Inr r'" "m_tagToEntity r h = None"
  shows "m_tagToEntity r' h = None"
proof (cases "IsValid r e")
  case False
  with assms show ?thesis by (simp add: kill_one_def)
next
  case True
  let ?i = "unat (GetEntityIndex (GetId e))"
  let ?r1 = "RemoveEntityFromSystems r e"
  let ?r2 = "?r1\<lparr>m_entityComponentSignatures := (m_entityComponentSignatures ?r1)[?i := 0]\<rparr>"
  from assms(1) True obtain pools' r5 where
    g: "RemoveEntityGroup (RemoveEntityTag (?r2\<lparr>m_componentPools := pools'\<rparr>) e) e = Inr r5"
    and r': "r' = r5\<lparr>m_entityVersions := (m_entityVersions r5)[?i := m_entityVersions r5 ! ?i + 1],
                     m_freeIndices := m_freeIndices r5 @ [GetEntityIndex (GetId e)]\<rparr>"
    by (auto simp: kill_one_def Let_def split: if_splits sum.splits)
  have "m_tagToEntity (?r2\<lparr>m_componentPools := pools'\<rparr>) h = None"
    using assms(2) by (simp add: RemoveEntityFromSystems_def)
  then have "m_tagToEntity (RemoveEntityTag (?r2\<lparr>m_componentPools := pools'\<rparr>) e) h = None"
    by (rule RemoveEntityTag_None)
  then have "m_tagToEntity r5 h = None" using RemoveEntityGroup_tags[OF g] by simp
  then show ?thesis by (simp add: r')
qed

lemma kill_loop_tag_None:
  "kill_loop r es = Inr r' \<Longrightarrow> m_tagToEntity r h = None \<Longrightarrow> m_tagToEntity r' h = None"
proof (induction es arbitrary: r)
  case Nil
  then show ?case by simp
next
  case (Cons x xs)
  then obtain r1 where r1: "kill_one r x = Inr r1" "kill_loop r1 xs = Inr r'"
    by (auto split: sum.splits)
  from kill_one_tag_None[OF r1(1) Cons.prems(2)] Cons.IH[OF r1(2)] show ?case by simp
qed

lemma Update_tag_None:
  assumes "Update r = Inr r'" "m_tagToEntity r h = None"
  shows "m_tagToEntity r' h = None"
proof -
  from assms(1) obtain r1 r3 where
    a: "add_loop r (m_entitiesToBeAdded r) = Inr r1"
    and k: "kill_loop (r1\<lparr>m_entitiesToBeAdded := []\<rparr>)
              (m_entitiesToBeKilled (r1\<lparr>m_entitiesToBeAdded := []\<rparr>)) = Inr r3"
    and r': "r' = r3\<lparr>m_entitiesToBeKilled := []\<rparr>"
    by (auto simp: Update_def Let_def split: sum.splits)
  from add_loop_frame[OF a] obtain s where s: "r1 = r\<lparr>m_systems := s\<rparr>" by blast
  have "m_tagToEntity (r1\<lparr>m_entitiesToBeAdded := []\<rparr>) h = None" using s assms(2) by simp
  from kill_loop_tag_None[OF k this] show ?thesis by (simp add: r')
qed

lemma CreateEntity_tags:
  "CreateEntity r = Inr (e, r') \<Longrightarrow> m_tagToEntity r' = m_tagToEntity r"
  by (auto simp: CreateEntity_def Let_def split: if_splits prod.splits)

lemma AddComponent_tags:
  "AddComponent r c e v = Inr r' \<Longrightarrow> m_tagToEntity r' = m_tagToEntity r"
  by (auto simp: AddComponent_def Let_def split: sum.splits if_splits)

lemma RemoveComponent_tags:
  "RemoveComponent r c e = Inr r' \<Longrightarrow> m_tagToEntity r' = m_tagToEntity r"
  by (auto simp: RemoveComponent_def Let_def split: sum.splits if_splits option.splits)

lemma GroupEntity_tags:
  "GroupEntity r e g = Inr r' \<Longrightarrow> m_tagToEntity r' = m_tagToEntity r"
  by (auto simp: GroupEntity_def Let_def split: if_splits)

lemma TagEntity_tag_None:
  "TagEntity r e t = Inr r' \<Longrightarrow> m_tagToEntity r h = None \<Longrightarrow> HashString t \<noteq> h \<Longrightarrow>
     m_tagToEntity r' h = None"
  by (auto simp: TagEntity_def Let_def split: if_splits)

lemma Registry_call_tag_None:
  assumes "Registry_call r c = Inr r'" "m_tagToEntity r h = None"
    and "case c of Call_TagEntity e t \<Rightarrow> HashString t \<noteq> h | _ \<Rightarrow> True"
  shows "m_tagToEntity r' h = None"
proof (cases c)
  case Call_CreateEntity
  with assms show ?thesis
    by (auto split: sum.splits prod.splits dest: CreateEntity_tags)
next
  case (Call_KillEntity e)
  with assms show ?thesis by (auto simp: KillEntity_def)
next
  case Call_Update
  with assms show ?thesis by (auto intro: Update_tag_None)
next
  case (Call_AddComponent k e v)
  with assms show ?thesis by (auto dest: AddComponent_tags)
next
  case (Call_RemoveComponent k e)
  with assms show ?thesis by (auto dest: RemoveComponent_tags)
next
  case (Call_TagEntity e tag)
  with assms show ?thesis by (auto intro: TagEntity_tag_None)
next
  case (Call_RemoveEntityTag e)
  with assms show ?thesis by (auto intro: RemoveEntityTag_None)
next
  case (Call_GroupEntity e g)
  with assms show ?thesis by (auto dest: GroupEntity_tags)
next
  case (Call_RemoveEntityGroup e)
  with assms show ?thesis by (auto dest: RemoveEntityGroup_tags)
next
  case (Call_AddSystem ty sys)
  with assms show ?thesis by (auto simp: AddSystem_def)
qed

lemma Registry_run_tag_None:
  "Registry_run r cs = Inr r' \<Longrightarrow> m_tagToEntity r (HashString tag) = None \<Longrightarrow>
     hash_never_assigned tag cs \<Longrightarrow> m_tagToEntity r' (HashString tag) = None"
proof (induction cs arbitrary: r)
  case Nil
  then show ?case by simp
next
  case (Cons c cs)
  then obtain r1 where r1: "Registry_call r c = Inr r1" "Registry_run r1 cs = Inr r'"
    by (auto split: sum.splits)
  from Cons.prems(3) have c: "case c of Call_TagEntity e t \<Rightarrow> HashString t \<noteq> HashString tag | _ \<Rightarrow> True"
    and cs: "hash_never_assigned tag cs"
    by (simp_all add: hash_never_assigned_def)
  from Registry_call_tag_None[OF r1(1) Cons.prems(2) c] Cons.IH[OF r1(2) _ cs]
  show ?case by simp
qed

lemma RemoveEntityTag_erases:
  "EntityHasTag r e tag \<Longrightarrow> HashString tag \<noteq> 0 \<Longrightarrow>
     m_tagToEntity (RemoveEntityTag r e) (HashString tag) = None"
  by (auto simp: EntityHasTag_def RemoveEntityTag_def Let_def split: if_splits)

lemma GetEntityByTag_None:
  "m_tagToEntity r (HashString tag) = None \<Longrightarrow> GetEntityByTag r tag = \<lparr>m_id = 0, registry = nullptr\<rparr>"
  by (simp add: GetEntityByTag_def)

lemma kill_one_entityToTag:
  assumes "kill_one r y = Inr r1"
  shows "length (m_entityToTag r1) = length (m_entityToTag r)"
    and "j \<noteq> unat (entity_slot y) \<Longrightarrow> m_entityToTag r1 ! j = m_entityToTag r ! j"
proof -
  have "length (m_entityToTag r1) = length (m_entityToTag r)
     \<and> (j \<noteq> unat (entity_slot y) \<longrightarrow> m_entityToTag r1 ! j = m_entityToTag r ! j)"
  proof (cases "IsValid r y")
    case False
    with assms show ?thesis by (simp add: kill_one_def)
  next
    case True
    let ?i = "unat (GetEntityIndex (GetId y))"
    let ?r1 = "RemoveEntityFromSystems r y"
    let ?r2 = "?r1\<lparr>m_entityComponentSignatures := (m_entityComponentSignatures ?r1)[?i := 0]\<rparr>"
    from assms True obtain pools' r5 where
      g: "RemoveEntityGroup (RemoveEntityTag (?r2\<lparr>m_componentPools := pools'\<rparr>) y) y = Inr r5"
      and r': "r1 = r5\<lparr>m_entityVersions := (m_entityVersions r5)[?i := m_entityVersions r5 ! ?i + 1],
                     m_freeIndices := m_freeIndices r5 @ [GetEntityIndex (GetId y)]\<rparr>"
      by (auto simp: kill_one_def Let_def split: if_splits sum.splits)
    let ?r3 = "?r2\<lparr>m_componentPools := pools'\<rparr>"
    have t3: "m_entityToTag ?r3 = m_entityToTag r" by (simp add: RemoveEntityFromSystems_def)
    have "length (m_entityToTag (RemoveEntityTag ?r3 y)) = length (m_entityToTag ?r3)
       \<and> (j \<noteq> ?i \<longrightarrow> m_entityToTag (RemoveEntityTag ?r3 y) ! j = m_entityToTag ?r3 ! j)"
      by (simp add: RemoveEntityTag_def Let_def)
    then show ?thesis
      using RemoveEntityGroup_tags[OF g] t3 by (simp add: r' entity_slot_def)
  qed
  then show "length (m_entityToTag r1) = length (m_entityToTag r)"
    and "j \<noteq> unat (entity_slot y) \<Longrightarrow> m_entityToTag r1 ! j = m_entityToTag r ! j"
    by simp_all
qed

lemma kill_one_erases:
  assumes k: "kill_one r x = Inr r1" and v: "IsValid r x"
    and l: "unat (entity_slot x) < length (m_entityToTag r)"
    and h: "m_entityToTag r ! unat (entity_slot x) = h" "h \<noteq> 0"
  shows "m_tagToEntity r1 h = None"
proof -
  let ?i = "unat (GetEntityIndex (GetId x))"
  let ?r1 = "RemoveEntityFromSystems r x"
  let ?r2 = "?r1\<lparr>m_entityComponentSignatures := (m_entityComponentSignatures ?r1)[?i := 0]\<rparr>"
  from k v obtain pools' r5 where
    g: "RemoveEntityGroup (RemoveEntityTag (?r2\<lparr>m_componentPools := pools'\<rparr>) x) x = Inr r5"
    and r': "r1 = r5\<lparr>m_entityVersions := (m_entityVersions r5)[?i := m_entityVersions r5 ! ?i + 1],
                   m_freeIndices := m_freeIndices r5 @ [GetEntityIndex (GetId x)]\<rparr>"
    by (auto simp: kill_one_def Let_def split: if_splits sum.splits)
  let ?r3 = "?r2\<lparr>m_componentPools := pools'\<rparr>"
  have t3: "m_entityToTag ?r3 = m_entityToTag r" by (simp add: RemoveEntityFromSystems_def)
  have "m_tagToEntity (RemoveEntityTag ?r3 x) h = None"
    using l h t3 by (simp add: RemoveEntityTag_def Let_def entity_slot_def)
  then show ?thesis using RemoveEntityGroup_tags[OF g] by (simp add: r')
qed

lemma kill_loop_erases:
  assumes "kill_loop r es = Inr r'"
    and "list_all (IsValid r) es"
    and "distinct (map entity_slot es)"
    and "x \<in> set es"
    and "unat (entity_slot x) < length (m_entityToTag r)"
    and "m_entityToTag r ! unat (entity_slot x) = h" "h \<noteq> 0"
  shows "m_tagToEntity r' h = None"
  using assms
proof (induction es arbitrary: r)
  case Nil
  then show ?case by simp
next
  case (Cons y ys)
  from Cons.prems(1) obtain r1 where r1: "kill_one r y = Inr r1" "kill_loop r1 ys = Inr r'"
    by (auto split: sum.splits)
  from Cons.prems(2) have vy: "IsValid r y" by simp
  show ?case
  proof (cases "x = y")
    case True
    from kill_one_erases[OF r1(1) vy] Cons.prems(5,6,7) True
    have "m_tagToEntity r1 h = None" by simp
    then show ?thesis using kill_loop_tag_None[OF r1(2)] by simp
  next
    case False
    with Cons.prems(4) have xin: "x \<in> set ys" by simp
    note f = kill_one_frame[OF r1(1) vy]
    let ?iy = "unat (entity_slot y)"
    have nin: "?iy \<notin> (\<lambda>z. unat (entity_slot z)) ` set ys"
      using Cons.prems(3) by (auto simp: word_unat_eq_iff[symmetric])
    have vys: "list_all (IsValid r1) ys"
      unfolding list_all_iff
    proof
      fix z assume z: "z \<in> set ys"
      then have vz: "IsValid r z" using Cons.prems(2) by (simp add: list_all_iff)
      have "unat (entity_slot z) \<noteq> ?iy" using nin z by (metis image_eqI)
      then show "IsValid r1 z" using vz by (simp add: IsValid_iff f(1))
    qed
    have d: "distinct (map entity_slot ys)" using Cons.prems(3) by simp
    have ne: "unat (entity_slot x) \<noteq> ?iy" using nin xin by (metis image_eqI)
    have l1: "unat (entity_slot x) < length (m_entityToTag r1)"
      using kill_one_entityToTag(1)[OF r1(1)] Cons.prems(5) by simp
    have h1: "m_entityToTag r1 ! unat (entity_slot x) = h"
      using kill_one_entityToTag(2)[OF r1(1) ne] Cons.prems(6) by simp
    from Cons.IH[OF r1(2) vys d xin l1 h1 Cons.prems(7)] show ?thesis .
  qed
qed

lemma Update_kill_erases_tag:
  assumes u: "Update (KillEntity r e) = Inr r'" and ok: "pending_kills_ok r" and v: "IsValid r e"
    and t: "EntityHasTag r e tag" and z: "HashString tag \<noteq> 0"
  shows "m_tagToEntity r' (HashString tag) = None"
proof -
  let ?K = "set_insert e (m_entitiesToBeKilled r)"
  let ?rk = "KillEntity r e"
  have rk: "?rk = r\<lparr>m_entitiesToBeKilled := ?K\<rparr>" using v by (simp add: KillEntity_def)
  have okk: "pending_kills_ok ?rk" using ok by (rule KillEntity_pending_ok)
  from u obtain r1 r3 where
    a: "add_loop ?rk (m_entitiesToBeAdded ?rk) = Inr r1"
    and k: "kill_loop (r1\<lparr>m_entitiesToBeAdded := []\<rparr>)
              (m_entitiesToBeKilled (r1\<lparr>m_entitiesToBeAdded := []\<rparr>)) = Inr r3"
    and r': "r' = r3\<lparr>m_entitiesToBeKilled := []\<rparr>"
    by (auto simp: Update_def Let_def split: sum.splits)
  from add_loop_frame[OF a] obtain s where s: "r1 = ?rk\<lparr>m_systems := s\<rparr>" by blast
  let ?r2 = "r1\<lparr>m_entitiesToBeAdded := []\<rparr>"
  have v2: "m_entityVersions ?r2 = m_entityVersions ?rk" and k2: "m_entitiesToBeKilled ?r2 = ?K"
    and t2: "m_entityToTag ?r2 = m_entityToTag r"
    using s by (simp_all add: rk)
  have val: "list_all (IsValid ?r2) ?K"
    using okk IsValid_versions[OF v2] by (simp add: pending_kills_ok_def list_all_iff rk)
  have d: "distinct (map entity_slot ?K)"
    using okk valid_distinct_slots[of ?K ?rk] by (simp add: pending_kills_ok_def rk)
  from set_insert_has[of e "m_entitiesToBeKilled r"] obtain x where x: "x \<in> set ?K" "GetId x = GetId e"
    by blast
  then have sx: "entity_slot x = entity_slot e" by (simp add: entity_slot_def)
  from t have l: "unat (entity_slot x) < length (m_entityToTag ?r2)"
    and h: "m_entityToTag ?r2 ! unat (entity_slot x) = HashString tag"
    unfolding t2 sx
    by (auto simp: EntityHasTag_def entity_slot_def Let_def split: if_splits)
  from kill_loop_erases[OF k[unfolded k2] val d x(1) l h z]
  show ?thesis by (simp add: r')
qed

lemma GetEntityByTag_sentinel_iff:
  "GetEntityByTag r tag = \<lparr>m_id = 0, registry = nullptr\<rparr> \<longleftrightarrow> m_tagToEntity r (HashString tag) = None"
  by (simp add: GetEntityByTag_def split: option.splits)

text \<open>
  Claim C10, as amended. \<open>GetEntityByTag\<close> returns the entity with id 0 and a null
  registry pointer for a tag name such that no tag name with its hash was assigned since
  the registry was constructed; for a tag name with a hash other than 0 that an entity
  holds when \<open>RemoveEntityTag\<close> is called on that entity; and for a tag name with a hash
  other than 0 that a valid entity holds when it is killed and synchronized. Once it is
  the result for a tag name, it stays the result until a tag name with that hash is
  assigned. The first handle a new registry creates has slot index 0 and generation 0, so
  its id is 0 too, and \<open>operator==\<close>, which compares ids only, holds between the two; it
  holds between that result and exactly the entities with id 0.
\<close>

theorem GetEntityByTag_absent_is_id_zero:
  "(Registry_run Registry_init cs = Inr r \<and> hash_never_assigned tag cs \<longrightarrow>
      GetEntityByTag r tag = \<lparr>m_id = 0, registry = nullptr\<rparr>)
   \<and> (EntityHasTag rt e tag \<and> HashString tag \<noteq> 0 \<longrightarrow>
        GetEntityByTag (RemoveEntityTag rt e) tag = \<lparr>m_id = 0, registry = nullptr\<rparr>)
   \<and> (IsValid rt e \<and> pending_kills_ok rt \<and> EntityHasTag rt e tag \<and> HashString tag \<noteq> 0
        \<and> Update (KillEntity rt e) = Inr ru \<longrightarrow>
        GetEntityByTag ru tag = \<lparr>m_id = 0, registry = nullptr\<rparr>)
   \<and> (GetEntityByTag rs tag = \<lparr>m_id = 0, registry = nullptr\<rparr>
        \<and> Registry_run rs cs = Inr rs' \<and> hash_never_assigned tag cs \<longrightarrow>
        GetEntityByTag rs' tag = \<lparr>m_id = 0, registry = nullptr\<rparr>)
   \<and> CreateEntity (Registry_init :: nat Registry) = Inr (e0, reg_created)
   \<and> GetEntityIndex (GetId e0) = 0 \<and> GetEntityVersion (GetId e0) = 0
   \<and> registry e0 = this_registry
   \<and> Entity_eq \<lparr>m_id = 0, registry = nullptr\<rparr> e0
   \<and> (\<forall>x. Entity_eq \<lparr>m_id = 0, registry = nullptr\<rparr> x \<longleftrightarrow> GetId x = 0)"
proof -
  have a: "GetEntityByTag r tag = \<lparr>m_id = 0, registry = nullptr\<rparr>"
    if "Registry_run Registry_init cs = Inr r" "hash_never_assigned tag cs"
    using Registry_run_tag_None[OF that(1) _ that(2)]
    by (simp add: GetEntityByTag_None Registry_init_def)
  have b: "GetEntityByTag (RemoveEntityTag rt e) tag = \<lparr>m_id = 0, registry = nullptr\<rparr>"
    if "EntityHasTag rt e tag" "HashString tag \<noteq> 0"
    using RemoveEntityTag_erases[OF that] by (rule GetEntityByTag_None)
  have c: "GetEntityByTag ru tag = \<lparr>m_id = 0, registry = nullptr\<rparr>"
    if "IsValid rt e" "pending_kills_ok rt" "EntityHasTag rt e tag" "HashString tag \<noteq> 0"
      "Update (KillEntity rt e) = Inr ru"
    using Update_kill_erases_tag[OF that(5,2,1,3,4)] by (rule GetEntityByTag_None)
  have p: "GetEntityByTag rs' tag = \<lparr>m_id = 0, registry = nullptr\<rparr>"
    if "GetEntityByTag rs tag = \<lparr>m_id = 0, registry = nullptr\<rparr>"
      "Registry_run rs cs = Inr rs'" "hash_never_assigned tag cs"
    using Registry_run_tag_None[OF that(2) _ that(3)] that(1)
    by (simp add: GetEntityByTag_sentinel_iff)
  have d: "GetEntityIndex (GetId e0) = 0" "GetEntityVersion (GetId e0) = 0"
    by (simp_all add: e0_def index_defs GetId_def)
  have f: "Entity_eq \<lparr>m_id = 0, registry = nullptr\<rparr> e0"
    "\<forall>x. Entity_eq \<lparr>m_id = 0, registry = nullptr\<rparr> x \<longleftrightarrow> GetId x = 0"
    "registry e0 = this_registry"
    by (auto simp: Entity_eq_def GetId_def e0_def)
  show ?thesis using a b c p d f create_first by blast
qed

lemma run_tagged:
  "Registry_run (Registry_init :: nat Registry) [Call_CreateEntity, Call_TagEntity e0 ''a''] = Inr reg_tagged"
  using create_first
  by (simp add: TagEntity_def resize_def reg_created_def reg_tagged_def Registry_init_def e0_def
      index_defs entity_defs Let_def)

lemma update_tag_killed: "Update (KillEntity reg_tagged e0) = Inr reg_tag_killed"
  by (simp add: registry_defs index_defs entity_defs e0_def reg_created_def reg_tagged_def
      reg_recycled_def reg_tag_killed_def Let_def HashString_def)

text \<open>The theorem at a registry whose first entity is alive and tagged \<open>a\<close>: for a
  tag never assigned; for the tag \<open>a\<close> after \<open>RemoveEntityTag\<close>, and after a further
  call; and for the tag \<open>a\<close> after the entity is killed and synchronized.\<close>

theorem GetEntityByTag_absent_is_id_zero_witness:
  "Registry_run (Registry_init :: nat Registry) [Call_CreateEntity, Call_TagEntity e0 ''a''] = Inr reg_tagged
   \<and> hash_never_assigned ''player'' [Call_CreateEntity, Call_TagEntity e0 ''a'' :: nat registry_call]
   \<and> GetEntityByTag reg_tagged ''player'' = \<lparr>m_id = 0, registry = nullptr\<rparr>
   \<and> EntityHasTag reg_tagged e0 ''a'' \<and> HashString ''a'' \<noteq> 0
   \<and> GetEntityByTag (RemoveEntityTag reg_tagged e0) ''a'' = \<lparr>m_id = 0, registry = nullptr\<rparr>
   \<and> Registry_run (RemoveEntityTag reg_tagged e0) [Call_KillEntity e0]
        = Inr (KillEntity (RemoveEntityTag reg_tagged e0) e0)
   \<and> hash_never_assigned ''a'' [Call_KillEntity e0 :: nat registry_call]
   \<and> GetEntityByTag (KillEntity (RemoveEntityTag reg_tagged e0) e0) ''a''
        = \<lparr>m_id = 0, registry = nullptr\<rparr>
   \<and> IsValid reg_tagged e0 \<and> pending_kills_ok reg_tagged
   \<and> Update (KillEntity reg_tagged e0) = Inr reg_tag_killed
   \<and> GetEntityByTag reg_tag_killed ''a'' = \<lparr>m_id = 0, registry = nullptr\<rparr>
   \<and> Entity_eq (GetEntityByTag reg_tagged ''player'') e0
   \<and> Entity_eq (GetEntityByTag (RemoveEntityTag reg_tagged e0) ''a'') e0"
proof -
  have n: "hash_never_assigned ''player'' [Call_CreateEntity, Call_TagEntity e0 ''a'' :: nat registry_call]"
    "hash_never_assigned ''a'' [Call_KillEntity e0 :: nat registry_call]"
    by (simp_all add: hash_never_assigned_def HashString_def)
  have h: "EntityHasTag reg_tagged e0 ''a''"
    by (simp add: EntityHasTag_def reg_tagged_def reg_created_def Registry_init_def e0_def
        index_defs entity_defs Let_def)
  have z: "HashString ''a'' \<noteq> 0" by (simp add: HashString_def)
  have v0: "IsValid reg_tagged e0"
    by (simp add: IsValid_def reg_tagged_def reg_created_def e0_def index_defs entity_defs Registry_init_def)
  have ok: "pending_kills_ok reg_tagged"
    by (simp add: pending_kills_ok_def reg_tagged_def reg_created_def Registry_init_def)
  from GetEntityByTag_absent_is_id_zero[where cs = "[Call_CreateEntity, Call_TagEntity e0 ''a'']"
      and r = reg_tagged and tag = "''player''"] run_tagged n(1)
  have a: "GetEntityByTag reg_tagged ''player'' = \<lparr>m_id = 0, registry = nullptr\<rparr>"
    and eq: "Entity_eq \<lparr>m_id = 0, registry = nullptr\<rparr> e0"
    by blast+
  from GetEntityByTag_absent_is_id_zero[where rt = reg_tagged and e = e0 and tag = "''a''"
      and ru = reg_tag_killed] h z v0 ok update_tag_killed
  have b: "GetEntityByTag (RemoveEntityTag reg_tagged e0) ''a'' = \<lparr>m_id = 0, registry = nullptr\<rparr>"
    and c: "GetEntityByTag reg_tag_killed ''a'' = \<lparr>m_id = 0, registry = nullptr\<rparr>"
    by blast+
  have t: "Registry_run (RemoveEntityTag reg_tagged e0) [Call_KillEntity e0]
        = Inr (KillEntity (RemoveEntityTag reg_tagged e0) e0)"
    by simp
  from GetEntityByTag_absent_is_id_zero[where rs = "RemoveEntityTag reg_tagged e0" and tag = "''a''"
      and cs = "[Call_KillEntity e0]" and rs' = "KillEntity (RemoveEntityTag reg_tagged e0) e0"]
    b t n(2)
  have q: "GetEntityByTag (KillEntity (RemoveEntityTag reg_tagged e0) e0) ''a''
        = \<lparr>m_id = 0, registry = nullptr\<rparr>"
    by blast
  show ?thesis using run_tagged n h z v0 ok update_tag_killed a b c eq t q by simp
qed

lemma run_collision:
  "Registry_run (Registry_init :: nat Registry)
     [Call_CreateEntity, Call_CreateEntity, Call_TagEntity e1 ''costarring''] = Inr reg_collision"
proof -
  have rep: "replicate 2 (0 :: u32) = [0, 0]" by (simp add: numeral_2_eq_2)
  have t: "TagEntity reg_two_created e1 ''costarring'' = Inr reg_collision"
    by (simp add: TagEntity_def resize_def reg_two_created_def reg_collision_def Registry_init_def
        e1_def index_defs entity_defs Let_def rep)
  show ?thesis using create_first create_two t by simp
qed

text \<open>
  Claim C10 as stated fails: the tag map is keyed by the 32-bit hash of the name, and
  \<open>costarring\<close> and \<open>liquid\<close> have the same hash. After the second entity is tagged
  \<open>costarring\<close>, the lookup of \<open>liquid\<close>, a name never assigned, returns that entity,
  with id 1 and the registry pointer set.
\<close>

theorem GetEntityByTag_collision_counterexample:
  "Registry_run (Registry_init :: nat Registry)
     [Call_CreateEntity, Call_CreateEntity, Call_TagEntity e1 ''costarring''] = Inr reg_collision
   \<and> tag_never_assigned ''liquid''
        [Call_CreateEntity, Call_CreateEntity, Call_TagEntity e1 ''costarring'' :: nat registry_call]
   \<and> GetEntityByTag reg_collision ''liquid'' = e1
   \<and> GetEntityByTag reg_collision ''liquid'' \<noteq> \<lparr>m_id = 0, registry = nullptr\<rparr>
   \<and> GetId (GetEntityByTag reg_collision ''liquid'') \<noteq> 0
   \<and> registry (GetEntityByTag reg_collision ''liquid'') \<noteq> nullptr"
proof -
  have n: "tag_never_assigned ''liquid''
        [Call_CreateEntity, Call_CreateEntity, Call_TagEntity e1 ''costarring'' :: nat registry_call]"
    by (simp add: tag_never_assigned_def)
  have g: "GetEntityByTag reg_collision ''liquid'' = e1"
    using HashString_collision
    by (simp add: GetEntityByTag_def reg_collision_def e1_def)
  show ?thesis using run_collision n g by (simp add: e1_def GetId_def)
qed

text \<open>\<open>RemoveEntityTag\<close> takes the hash 0 for "no tag": the entry of a tag name with
  hash 0 is never erased, and its lookup still returns the entity.\<close>

lemma HashString_zero: "HashString zero_hash_tag = 0"
  by (simp add: HashString_def zero_hash_tag_def)

lemma RemoveEntityTag_zero_hash_keeps_entry:
  "TagEntity reg_created e0 zero_hash_tag = Inr reg_zero_tagged
   \<and> EntityHasTag reg_zero_tagged e0 zero_hash_tag
   \<and> RemoveEntityTag reg_zero_tagged e0 = reg_zero_tagged
   \<and> GetEntityByTag (RemoveEntityTag reg_zero_tagged e0) zero_hash_tag = e0"
  using HashString_zero
  by (simp add: TagEntity_def EntityHasTag_def RemoveEntityTag_def GetEntityByTag_def resize_def
      reg_created_def reg_zero_tagged_def Registry_init_def e0_def index_defs entity_defs Let_def)

end
